theory Spec2Isabelle
  imports Main
begin

section \<open>Exceptions\<close>

text \<open>
  The exceptions that the functions of \<^verbatim>\<open>get_citations.py\<close> can raise.
  \<^verbatim>\<open>FetchError\<close> stands for whatever \<^verbatim>\<open>requests.get\<close> raises, and
  \<^verbatim>\<open>ParseError\<close> for whatever \<^verbatim>\<open>frontmatter.loads\<close> raises.
\<close>

datatype error =
    ValueError
  | KeyError string
  | AttributeError
  | TypeError
  | FileNotFoundError
  | FetchError
  | ParseError

section \<open>Text files and their lines\<close>

text \<open>
  A document is the text that \<^verbatim>\<open>fp.read()\<close> returns for \<^verbatim>\<open>_index.md\<close>: a
  string in which every line terminator is the single character \<^verbatim>\<open>\n\<close>. A text
  that the program wrote becomes a document again only through the translation of a read
  (\<open>universal_newlines\<close> below).
\<close>

definition nl :: char where
  "nl = CHR 0x0A"

text \<open>
  \<^verbatim>\<open>fp.readlines()\<close>: the text cut after every \<^verbatim>\<open>\n\<close>; every line keeps its
  terminator, and the last line has none when the text does not end with one.
\<close>

fun readlines :: "string \<Rightarrow> string list" where
  "readlines [] = []"
| "readlines (c # cs) =
     (if c = nl then [c] # readlines cs
      else (case readlines cs of [] \<Rightarrow> [[c]] | l # ls \<Rightarrow> (c # l) # ls))"

text \<open>\<^verbatim>\<open>fp.writelines(lines)\<close> writes the lines one after the other.\<close>

definition writelines :: "string list \<Rightarrow> string" where
  "writelines ls = concat ls"

text \<open>\<^verbatim>\<open>xs.index(x)\<close>: the position of the first \<^verbatim>\<open>x\<close>, or a ValueError.\<close>

fun list_index :: "'a list \<Rightarrow> 'a \<Rightarrow> error + nat" where
  "list_index [] x = Inl ValueError"
| "list_index (y # ys) x =
     (if y = x then Inr 0
      else (case list_index ys x of Inl e \<Rightarrow> Inl e | Inr i \<Rightarrow> Inr (Suc i)))"

text \<open>
  The slices \<^verbatim>\<open>xs[:k]\<close> and \<^verbatim>\<open>xs[k:]\<close> of Python: a negative bound counts
  from the end of the list, and a bound outside the list is clipped.
\<close>

definition slice_to :: "'a list \<Rightarrow> int \<Rightarrow> 'a list" where
  "slice_to xs k =
     (if k < 0 then take (nat (int (length xs) + k)) xs else take (nat k) xs)"

definition slice_from :: "'a list \<Rightarrow> int \<Rightarrow> 'a list" where
  "slice_from xs k =
     (if k < 0 then drop (nat (int (length xs) + k)) xs else drop (nat k) xs)"

text \<open>\<^verbatim>\<open>s.endswith("\n")\<close>.\<close>

definition endswith_nl :: "string \<Rightarrow> bool" where
  "endswith_nl s = (s \<noteq> [] \<and> last s = nl)"

section \<open>Removing the generated block\<close>

definition start_mark :: string where
  "start_mark = ''<!-- PUBLICATIONS START -->\<newline>''"

definition end_mark :: string where
  "end_mark = ''<!-- PUBLICATIONS END -->\<newline>''"

text \<open>
  \<^verbatim>\<open>clean_index_of_old_pubs\<close>, as a function from the text of \<^verbatim>\<open>_index.md\<close>
  before the call to its text after the call. When either \<^verbatim>\<open>md.index\<close> raises
  ValueError the handler only prints, and the file is not written.
\<close>

definition clean_index_of_old_pubs :: "string \<Rightarrow> string" where
  "clean_index_of_old_pubs content =
     (let md = readlines content in
      case list_index md start_mark of
        Inl e \<Rightarrow> content
      | Inr publication_begins \<Rightarrow>
          (case list_index md end_mark of
             Inl e \<Rightarrow> content
           | Inr publication_ends \<Rightarrow>
               (let clean_md = slice_to md (int publication_begins - 1)
                                 @ slice_from md (int publication_ends + 1)
                in writelines clean_md)))"

text \<open>
  Well-formed line lists: every line but the last ends with its only \<^verbatim>\<open>\n\<close>, and
  the last line is not empty and has no \<^verbatim>\<open>\n\<close> before its end. These are the
  lists that \<^verbatim>\<open>readlines\<close> returns.
\<close>

definition "terminated" :: "string \<Rightarrow> bool" where
  "terminated l \<longleftrightarrow> l \<noteq> [] \<and> last l = nl \<and> nl \<notin> set (butlast l)"

fun wf_lines :: "string list \<Rightarrow> bool" where
  "wf_lines [] = True"
| "wf_lines [l] = (l \<noteq> [] \<and> nl \<notin> set (butlast l))"
| "wf_lines (l # ls) = (terminated l \<and> wf_lines ls)"

text \<open>
  The file is opened in text mode, so a read translates the line ends: \<^verbatim>\<open>\r\n\<close> and a
  lone \<^verbatim>\<open>\r\<close> come back as \<^verbatim>\<open>\n\<close>. The texts that \<^verbatim>\<open>fp.read()\<close> and
  \<^verbatim>\<open>fp.readlines()\<close> return therefore hold no \<^verbatim>\<open>\r\<close>, and a text that the program
  wrote is read back later as its translation (the write itself changes nothing where the
  line separator of the platform is \<^verbatim>\<open>\n\<close>).
\<close>

definition cr :: char where
  "cr = CHR 0x0D"

fun universal_newlines :: "string \<Rightarrow> string" where
  "universal_newlines [] = []"
| "universal_newlines [c] = (if c = cr then [nl] else [c])"
| "universal_newlines (c # d # cs) =
     (if c = cr then
        (if d = nl then nl # universal_newlines cs else nl # universal_newlines (d # cs))
      else c # universal_newlines (d # cs))"

section \<open>Rendering and appending the block\<close>

text \<open>
  A publication is the dictionary that \<^verbatim>\<open>parse_row\<close> builds, with the three keys
  \<^verbatim>\<open>title\<close>, \<^verbatim>\<open>authors\<close> and \<^verbatim>\<open>year\<close>.
\<close>

record publication =
  title :: string
  authors :: string
  year :: string

definition publication_to_md :: "publication \<Rightarrow> string" where
  "publication_to_md publication =
     (let md = ''- **'' @ title publication @ ''** ('' @ year publication @ '')\<newline>'';
          md = md @ ''  - '' @ authors publication @ ''\<newline>''
      in md)"

text \<open>The text \<^verbatim>\<open>annex\<close> that \<^verbatim>\<open>main\<close> builds from the publications.\<close>

definition make_annex :: "publication list \<Rightarrow> string" where
  "make_annex publications =
     (let annex = ''<!-- PUBLICATIONS START -->\<newline>'';
          annex = annex @ ''<!-- This content is automatically generated by get_citations.py. Don't touch -->\<newline>'';
          annex = annex @ ''\<newline>\<newline>## Publications\<newline>'';
          annex = foldl (\<lambda>annex pub. annex @ publication_to_md pub) annex publications;
          annex = annex @ ''<!-- PUBLICATIONS END -->\<newline>''
      in annex)"

text \<open>
  The end of the loop body of \<^verbatim>\<open>main\<close>: the text \<^verbatim>\<open>new_index\<close> written to
  \<^verbatim>\<open>_index.md\<close>, from the text \<^verbatim>\<open>old_index\<close> read from it and the publications.
\<close>

definition write_new_index :: "string \<Rightarrow> publication list \<Rightarrow> string" where
  "write_new_index old_index publications =
     (let annex = make_annex publications;
          old_index = (if \<not> endswith_nl old_index then old_index @ ''\<newline>'' else old_index);
          new_index = old_index @ annex @ ''\<newline>''
      in new_index)"

text \<open>
  The two file writes of one pass of the loop of \<^verbatim>\<open>main\<close> for an author with a
  profile link: the old block is removed, then the new block is appended to what is left.
  The result is the text written to the file.
\<close>

definition update_document :: "string \<Rightarrow> publication list \<Rightarrow> string" where
  "update_document content publications =
     write_new_index (clean_index_of_old_pubs content) publications"

text \<open>
  The lines of a text from its first start marker line to its first end marker line, both
  included, when both are there.
\<close>

definition generated_block :: "string list \<Rightarrow> string list option" where
  "generated_block md =
     (case list_index md start_mark of
        Inl e \<Rightarrow> None
      | Inr b \<Rightarrow>
          (case list_index md end_mark of
             Inl e \<Rightarrow> None
           | Inr e \<Rightarrow> Some (take (Suc e - b) (drop b md))))"

text \<open>Names for the fixed lines of the block and for the rendered publications.\<close>

definition comment_line :: string where
  "comment_line = ''<!-- This content is automatically generated by get_citations.py. Don't touch -->\<newline>''"

definition heading_line :: string where
  "heading_line = ''## Publications\<newline>''"

definition rendered :: "publication list \<Rightarrow> string" where
  "rendered publications = concat (map publication_to_md publications)"

definition ensure_nl :: "string \<Rightarrow> string" where
  "ensure_nl s = (if endswith_nl s then s else s @ [nl])"

section \<open>Reading the profile link\<close>

text \<open>
  The front matter of \<^verbatim>\<open>_index.md\<close> as \<^verbatim>\<open>content.to_dict()\<close> returns it. Only the
  list-valued keys matter here: \<^verbatim>\<open>social\<close> is a list of dictionaries from strings to
  strings. The parser itself (\<^verbatim>\<open>frontmatter.loads\<close>) is a library function and is a
  parameter \<open>loads\<close> of the model, from the text of the file to the dictionary or an
  exception.
\<close>

type_synonym entry = "string \<rightharpoonup> string"

type_synonym metadata = "string \<rightharpoonup> entry list"

text \<open>
  The file \<^verbatim>\<open>_index.md\<close> of an author folder is \<open>None\<close> when the folder has no such
  file, and \<^verbatim>\<open>open\<close> raises.
\<close>

definition parse_markdown :: "(string \<Rightarrow> error + metadata) \<Rightarrow> string option \<Rightarrow> error + metadata" where
  "parse_markdown loads file =
     (case file of
        None \<Rightarrow> Inl FileNotFoundError
      | Some content \<Rightarrow> loads content)"

definition default_link :: string where
  "default_link = ''https://scholar.google.co.uk/citations?user=sIwtMXoAAAAJ''"

text \<open>
  The dictionary comprehension \<^verbatim>\<open>{l["icon"]: l["link"] for l in social_links}\<close>: the
  entries are stored from first to last, so a later entry overwrites an earlier one with
  the same icon; an entry without one of the two keys raises KeyError.
\<close>

fun social_dict :: "entry list \<Rightarrow> (string \<rightharpoonup> string) \<Rightarrow> error + (string \<rightharpoonup> string)" where
  "social_dict [] acc = Inr acc"
| "social_dict (l # ls) acc =
     (case l ''icon'' of
        None \<Rightarrow> Inl (KeyError ''icon'')
      | Some k \<Rightarrow>
          (case l ''link'' of
             None \<Rightarrow> Inl (KeyError ''link'')
           | Some v \<Rightarrow> social_dict ls (acc(k \<mapsto> v))))"

definition get_scholar_link ::
  "(string \<Rightarrow> error + metadata) \<Rightarrow> string option \<Rightarrow> error + string option" where
  "get_scholar_link loads file =
     (case parse_markdown loads file of
        Inl e \<Rightarrow> Inl e
      | Inr author_metadata \<Rightarrow>
          (case author_metadata ''social'' of
             None \<Rightarrow> Inl (KeyError ''social'')
           | Some social_list \<Rightarrow>
               (case social_dict social_list Map.empty of
                  Inl e \<Rightarrow> Inl e
                | Inr social_links \<Rightarrow>
                    (case social_links ''graduation-cap'' of
                       None \<Rightarrow> Inr None
                     | Some link \<Rightarrow>
                         if link = default_link then Inr None else Inr (Some link)))))"

text \<open>
  The links that the entries with a given icon carry, in the order of the entries; the
  last one is the link that the dictionary keeps for that icon.
\<close>

definition links_for :: "string \<Rightarrow> entry list \<Rightarrow> string list" where
  "links_for icon_name ls = map (\<lambda>l. the (l ''link'')) (filter (\<lambda>l. l ''icon'' = Some icon_name) ls)"

definition well_formed_entry :: "entry \<Rightarrow> bool" where
  "well_formed_entry l = (l ''icon'' \<noteq> None \<and> l ''link'' \<noteq> None)"

section \<open>The page and its rows\<close>

text \<open>
  The parse tree that \<^verbatim>\<open>BeautifulSoup(page, "html.parser")\<close> returns: a tag has a name,
  the list of its classes (the value of its \<^verbatim>\<open>class\<close> attribute, empty when it has
  none; the program looks at no other attribute) and its children; a leaf is a string.
  The tree is an input of the model: the HTML parser is a library function.
\<close>

datatype node =
    Tag string "string list" "node list"
  | NavigableString string

text \<open>\<^verbatim>\<open>tag.descendants\<close>: all the nodes below a tag, in document order.\<close>

fun descendants :: "node \<Rightarrow> node list" where
  "descendants (NavigableString s) = []"
| "descendants (Tag name classes kids) = concat (map (\<lambda>k. k # descendants k) kids)"

text \<open>\<^verbatim>\<open>tag.text\<close>: the strings below a tag, joined in document order.\<close>

fun get_text :: "node \<Rightarrow> string" where
  "get_text (NavigableString s) = s"
| "get_text (Tag name classes kids) = concat (map get_text kids)"

text \<open>
  The test that \<^verbatim>\<open>find_all(name, {"class": c})\<close> applies to a node: a tag with that
  name, one of whose classes is \<^verbatim>\<open>c\<close>; without \<^verbatim>\<open>attrs\<close>, a tag with that name.
\<close>

fun strainer :: "string \<Rightarrow> string option \<Rightarrow> node \<Rightarrow> bool" where
  "strainer name cls (NavigableString s) = False"
| "strainer name None (Tag n classes kids) = (n = name)"
| "strainer name (Some c) (Tag n classes kids) = (n = name \<and> c \<in> set classes)"

text \<open>
  The loop of \<^verbatim>\<open>find_all\<close>: it walks the generator and collects the nodes that
  pass the test, and stops early under \<^verbatim>\<open>if limit and len(results) >= limit\<close>; so a
  limit of \<^verbatim>\<open>None\<close> or of 0 is no limit. This is the loop of the library up to
  version 4.12; the repository pins no version, and a later loop stops after the first
  match when the limit is 0. The two agree for every limit that is \<^verbatim>\<open>None\<close> or
  positive, and on a page with one row.
\<close>

fun find_all_loop :: "(node \<Rightarrow> bool) \<Rightarrow> nat option \<Rightarrow> node list \<Rightarrow> node list \<Rightarrow> node list" where
  "find_all_loop test limit [] results = results"
| "find_all_loop test limit (i # generator) results =
     (if test i then
        (let results = results @ [i] in
         if (case limit of None \<Rightarrow> False | Some n \<Rightarrow> n \<noteq> 0 \<and> n \<le> length results)
         then results
         else find_all_loop test limit generator results)
      else find_all_loop test limit generator results)"

definition find_all :: "node \<Rightarrow> string \<Rightarrow> string option \<Rightarrow> nat option \<Rightarrow> node list" where
  "find_all tag name cls limit = find_all_loop (strainer name cls) limit (descendants tag) []"

text \<open>\<^verbatim>\<open>tag.find(...)\<close> and \<^verbatim>\<open>tag.div\<close>, \<^verbatim>\<open>tag.a\<close>: the first match, or \<^verbatim>\<open>None\<close>.\<close>

definition find_tag :: "node \<Rightarrow> string \<Rightarrow> string option \<Rightarrow> node option" where
  "find_tag tag name cls =
     (case find_all tag name cls (Some 1) of
        [] \<Rightarrow> None
      | r # rs \<Rightarrow> Some r)"

text \<open>
  \<^verbatim>\<open>parse_row\<close>. An attribute read on \<^verbatim>\<open>None\<close> raises AttributeError:
  \<^verbatim>\<open>title.div\<close> when the row has no title cell, then \<^verbatim>\<open>title.a.text\<close>,
  \<^verbatim>\<open>authors.text\<close> and \<^verbatim>\<open>year.text\<close> in the order of the dictionary display.
\<close>

definition parse_row :: "node \<Rightarrow> error + publication" where
  "parse_row tr =
     (case find_tag tr ''td'' (Some ''gsc_a_t'') of
        None \<Rightarrow> Inl AttributeError
      | Some title_cell \<Rightarrow>
          (let authors_div = find_tag title_cell ''div'' None;
               year_cell = find_tag tr ''td'' (Some ''gsc_a_y'')
           in case find_tag title_cell ''a'' None of
                None \<Rightarrow> Inl AttributeError
              | Some a \<Rightarrow>
                  (case authors_div of
                     None \<Rightarrow> Inl AttributeError
                   | Some d \<Rightarrow>
                       (case year_cell of
                          None \<Rightarrow> Inl AttributeError
                        | Some y \<Rightarrow>
                            Inr \<lparr>title = get_text a, authors = get_text d,
                                 year = get_text y\<rparr>))))"

text \<open>
  The list comprehension \<^verbatim>\<open>[parse_row(row) for row in all_rows]\<close>: the first row that
  raises ends it.
\<close>

fun parse_rows :: "node list \<Rightarrow> error + publication list" where
  "parse_rows [] = Inr []"
| "parse_rows (row # rows) =
     (case parse_row row of
        Inl e \<Rightarrow> Inl e
      | Inr p \<Rightarrow>
          (case parse_rows rows of
             Inl e \<Rightarrow> Inl e
           | Inr ps \<Rightarrow> Inr (p # ps)))"

text \<open>
  \<^verbatim>\<open>get_publications\<close>. The parameter \<open>fetch\<close> stands for \<^verbatim>\<open>requests.get\<close> followed
  by the HTML parser: from the address requested to the parse tree of the page, or an
  exception. A link that is \<^verbatim>\<open>None\<close> cannot be joined to a string: TypeError.
\<close>

definition get_publications ::
  "(string \<Rightarrow> error + metadata) \<Rightarrow> (string \<Rightarrow> error + node) \<Rightarrow> string option \<Rightarrow> nat option
     \<Rightarrow> error + publication list" where
  "get_publications loads fetch file limit =
     (case get_scholar_link loads file of
        Inl e \<Rightarrow> Inl e
      | Inr None \<Rightarrow> Inl TypeError
      | Inr (Some link) \<Rightarrow>
          (case fetch (link @ ''&view_op=list_works&sortby=pubdate'') of
             Inl e \<Rightarrow> Inl e
           | Inr soup \<Rightarrow>
               (let all_rows = find_all soup ''tr'' (Some ''gsc_a_tr'') limit
                in parse_rows all_rows)))"

text \<open>
  The rows of a page in document order, what makes a row well formed (it has the cells and
  the elements that \<^verbatim>\<open>parse_row\<close> reads), and the record that a well-formed row holds.
\<close>

definition page_rows :: "node \<Rightarrow> node list" where
  "page_rows soup = filter (strainer ''tr'' (Some ''gsc_a_tr'')) (descendants soup)"

definition well_formed_row :: "node \<Rightarrow> bool" where
  "well_formed_row tr =
     (case find_tag tr ''td'' (Some ''gsc_a_t'') of
        None \<Rightarrow> False
      | Some t \<Rightarrow>
          find_tag t ''a'' None \<noteq> None \<and> find_tag t ''div'' None \<noteq> None
            \<and> find_tag tr ''td'' (Some ''gsc_a_y'') \<noteq> None)"

definition row_record :: "node \<Rightarrow> publication" where
  "row_record tr =
     (let t = the (find_tag tr ''td'' (Some ''gsc_a_t''))
      in \<lparr>title = get_text (the (find_tag t ''a'' None)),
          authors = get_text (the (find_tag t ''div'' None)),
          year = get_text (the (find_tag tr ''td'' (Some ''gsc_a_y'')))\<rparr>)"

section \<open>The main loop\<close>

text \<open>
  One pass of the loop of \<^verbatim>\<open>main\<close>, for one author folder: from the state of its
  \<^verbatim>\<open>_index.md\<close> to the state after the pass, with the exception that ended the pass if
  there was one. The old block is removed before the link is tested. The state read in is
  the text as a read returns it, which holds no \<^verbatim>\<open>\r\<close>, and so does what
  \<^verbatim>\<open>clean_index_of_old_pubs\<close> leaves; the state left by the append is the text
  written, which a later run reads through \<open>universal_newlines\<close>.
\<close>

definition main_author ::
  "(string \<Rightarrow> error + metadata) \<Rightarrow> (string \<Rightarrow> error + node) \<Rightarrow> string option
     \<Rightarrow> string option \<times> error option" where
  "main_author loads fetch file =
     (case get_scholar_link loads file of
        Inl e \<Rightarrow> (file, Some e)
      | Inr scholar_link \<Rightarrow>
          (case file of
             None \<Rightarrow> (file, Some FileNotFoundError)
           | Some content \<Rightarrow>
               (let cleaned = clean_index_of_old_pubs content in
                case scholar_link of
                  None \<Rightarrow> (Some cleaned, None)
                | Some link \<Rightarrow>
                    (case get_publications loads fetch (Some cleaned) (Some 5) of
                       Inl e \<Rightarrow> (Some cleaned, Some e)
                     | Inr publications \<Rightarrow>
                         (Some (write_new_index cleaned publications), None)))))"

text \<open>
  \<^verbatim>\<open>main\<close>: the author folders are processed in order, and an exception ends the run,
  leaving the remaining folders as they were.
\<close>

fun main :: "(string \<Rightarrow> error + metadata) \<Rightarrow> (string \<Rightarrow> error + node) \<Rightarrow> string option list
     \<Rightarrow> string option list \<times> error option" where
  "main loads fetch [] = ([], None)"
| "main loads fetch (file # files) =
     (case main_author loads fetch file of
        (file', Some e) \<Rightarrow> (file' # files, Some e)
      | (file', None) \<Rightarrow>
          (case main loads fetch files of
             (files', r) \<Rightarrow> (file' # files', r)))"

section \<open>Example documents\<close>

definition two_blocks :: string where
  "two_blocks = ''\<newline>'' @ start_mark @ end_mark @ ''\<newline>'' @ start_mark @ end_mark"

definition one_block :: string where
  "one_block = ''Bio\<newline>\<newline>'' @ start_mark @ end_mark @ ''\<newline>''"

definition block_first :: string where
  "block_first = start_mark @ ''- old\<newline>'' @ end_mark @ ''tail 1\<newline>'' @ ''tail 2\<newline>''"

definition pub_A :: publication where
  "pub_A = \<lparr>title = ''A'', authors = ''X, Y'', year = ''2020''\<rparr>"

definition pub_B :: publication where
  "pub_B = \<lparr>title = ''B'', authors = ''Z'', year = ''2019''\<rparr>"

definition old_block_doc :: string where
  "old_block_doc = ''Bio\<newline>\<newline>'' @ start_mark @ ''- **Old** (1999)\<newline>'' @ end_mark @ ''\<newline>''"

definition two_caps :: "entry list" where
  "two_caps =
     [[''icon'' \<mapsto> ''graduation-cap'', ''link'' \<mapsto> default_link],
      [''icon'' \<mapsto> ''github'', ''link'' \<mapsto> ''https://github.com/x''],
      [''icon'' \<mapsto> ''graduation-cap'', ''link'' \<mapsto> ''https://scholar.google.com/citations?user=abc'']]"

definition default_only :: "entry list" where
  "default_only = [[''icon'' \<mapsto> ''graduation-cap'', ''link'' \<mapsto> default_link]]"

definition row_of :: "string \<Rightarrow> string \<Rightarrow> string \<Rightarrow> node" where
  "row_of t a y =
     Tag ''tr'' [''gsc_a_tr'']
       [Tag ''td'' [''gsc_a_t'']
          [Tag ''a'' [''gsc_a_at''] [NavigableString t],
           Tag ''div'' [''gs_gray''] [NavigableString a]],
        Tag ''td'' [''gsc_a_y''] [Tag ''span'' [] [NavigableString y]]]"

definition page_two_rows :: node where
  "page_two_rows =
     Tag ''[document]'' []
       [Tag ''table'' [] [row_of ''A'' ''X, Y'' ''2020'', row_of ''B'' ''Z'' ''2019'']]"

definition page_one_row :: node where
  "page_one_row = Tag ''[document]'' [] [Tag ''table'' [] [row_of ''A'' ''X, Y'' ''2020'']]"

definition loads_custom :: "string \<Rightarrow> error + metadata" where
  "loads_custom content = Inr [''social'' \<mapsto> two_caps]"

definition front_matter :: string where
  "front_matter = ''---\<newline>social:\<newline>- icon: graduation-cap\<newline>  link: https://scholar.google.com/citations?user=abc\<newline>---\<newline>''"

definition profile_doc :: string where
  "profile_doc = front_matter @ old_block_doc"

definition pub_marker :: publication where
  "pub_marker = \<lparr>title = ''T\<newline><!-- PUBLICATIONS START -->\<newline>U'', authors = ''X'', year = ''2020''\<rparr>"

section \<open>Lines: basic facts\<close>

lemma concat_readlines: "concat (readlines s) = s"
  by (induction s) (auto split: list.splits)

lemma readlines_Nil_iff: "readlines s = [] \<longleftrightarrow> s = []"
  by (cases s) (auto split: list.splits)

lemma readlines_append:
  "a = [] \<or> last a = nl \<Longrightarrow> readlines (a @ b) = readlines a @ readlines b"
proof (induction a)
  case Nil
  then show ?case by simp
next
  case (Cons c a)
  show ?case
  proof (cases "a = []")
    case True
    with Cons.prems show ?thesis by simp
  next
    case False
    with Cons.prems have "last a = nl" by simp
    with Cons.IH have ih: "readlines (a @ b) = readlines a @ readlines b" by simp
    from False have "readlines a \<noteq> []" by (simp add: readlines_Nil_iff)
    then show ?thesis using ih by (auto split: list.splits)
  qed
qed

lemma list_index_Inr_iff: "(\<exists>i. list_index xs x = Inr i) \<longleftrightarrow> x \<in> set xs"
  by (induction xs) (auto split: sum.splits)

lemma list_index_Inl: "x \<notin> set xs \<Longrightarrow> list_index xs x = Inl ValueError"
  by (induction xs) auto

lemma list_index_props:
  "list_index xs x = Inr i \<Longrightarrow> i < length xs \<and> xs ! i = x \<and> x \<notin> set (take i xs)"
proof (induction xs arbitrary: i)
  case Nil
  then show ?case by simp
next
  case (Cons y ys)
  then show ?case by (cases i) (auto split: if_splits sum.splits)
qed

lemma list_index_first:
  "x \<notin> set pre \<Longrightarrow> list_index (pre @ x # post) x = Inr (length pre)"
  by (induction pre) auto

lemma readlines_terminated: "terminated l \<Longrightarrow> readlines (l @ s) = l # readlines s"
proof (induction l)
  case Nil
  then show ?case by (simp add: terminated_def)
next
  case (Cons c l)
  show ?case
  proof (cases "l = []")
    case True
    with Cons.prems show ?thesis by (simp add: terminated_def)
  next
    case False
    with Cons.prems have "terminated l" "c \<noteq> nl" by (auto simp: terminated_def)
    with Cons.IH show ?thesis by simp
  qed
qed

lemma readlines_open: "l \<noteq> [] \<Longrightarrow> nl \<notin> set l \<Longrightarrow> readlines l = [l]"
proof (induction l)
  case Nil
  then show ?case by simp
next
  case (Cons c l)
  then show ?case by (cases "l = []") auto
qed

lemma readlines_last_line: "l \<noteq> [] \<Longrightarrow> nl \<notin> set (butlast l) \<Longrightarrow> readlines l = [l]"
proof (cases "last l = nl")
  case True
  assume "l \<noteq> []" "nl \<notin> set (butlast l)"
  with True have "terminated l" by (simp add: terminated_def)
  from readlines_terminated [OF this, of "[]"] show ?thesis by simp
next
  case False
  assume a: "l \<noteq> []" "nl \<notin> set (butlast l)"
  then have "l = butlast l @ [last l]" by simp
  then have "set l = set (butlast l) \<union> {last l}" by (metis Un_insert_right list.simps(15) set_append sup_bot.right_neutral list.set(1))
  with a False have "nl \<notin> set l" by auto
  with a show ?thesis by (simp add: readlines_open)
qed

lemma readlines_concat: "wf_lines ls \<Longrightarrow> readlines (concat ls) = ls"
proof (induction ls rule: wf_lines.induct)
  case 1
  then show ?case by simp
next
  case (2 l)
  then show ?case by (simp add: readlines_last_line)
next
  case (3 l v va)
  then show ?case by (simp add: readlines_terminated)
qed

lemma wf_lines_readlines: "wf_lines (readlines s)"
proof (induction s)
  case Nil
  then show ?case by simp
next
  case (Cons c s)
  show ?case
  proof (cases "c = nl")
    case True
    then show ?thesis using Cons.IH by (cases "readlines s") (auto simp: terminated_def)
  next
    case False
    show ?thesis
    proof (cases "readlines s")
      case Nil
      with False show ?thesis by simp
    next
      case (Cons l ls)
      with False Cons.IH show ?thesis
        by (cases ls) (auto simp: terminated_def)
    qed
  qed
qed

lemma wf_lines_drop: "wf_lines ls \<Longrightarrow> wf_lines (drop n ls)"
proof (induction ls arbitrary: n rule: wf_lines.induct)
  case 1 then show ?case by simp
next
  case (2 l) then show ?case by (cases n) auto
next
  case (3 l v va) then show ?case by (cases n) auto
qed

lemma wf_lines_butlast_terminated: "wf_lines ls \<Longrightarrow> l \<in> set (butlast ls) \<Longrightarrow> terminated l"
  by (induction ls rule: wf_lines.induct) auto

lemma wf_lines_append: "\<forall>l\<in>set xs. terminated l \<Longrightarrow> wf_lines ys \<Longrightarrow> wf_lines (xs @ ys)"
proof (induction xs)
  case Nil then show ?case by simp
next
  case (Cons x xs)
  then have "wf_lines (xs @ ys)" "terminated x" by auto
  then show ?case by (cases "xs @ ys") (auto simp: terminated_def)
qed

lemma wf_lines_take: "wf_lines ls \<Longrightarrow> n < length ls \<Longrightarrow> l \<in> set (take n ls) \<Longrightarrow> terminated l"
  by (metis take_butlast in_set_takeD wf_lines_butlast_terminated)

section \<open>Reading back: basic facts\<close>

lemma cr_neq_nl: "cr \<noteq> nl"
  by (simp add: cr_def nl_def)

lemma universal_newlines_Cons: "c \<noteq> cr \<Longrightarrow> universal_newlines (c # s) = c # universal_newlines s"
  by (cases s) simp_all

lemma universal_newlines_no_cr: "cr \<notin> set s \<Longrightarrow> universal_newlines s = s"
proof (induction s)
  case Nil
  then show ?case by simp
next
  case (Cons a s)
  then have "a \<noteq> cr" "universal_newlines s = s" by auto
  then show ?case by (simp add: universal_newlines_Cons)
qed

lemma universal_newlines_Nil_iff: "universal_newlines s = [] \<longleftrightarrow> s = []"
  by (induction s rule: universal_newlines.induct) simp_all

lemma universal_newlines_append:
  "a = [] \<or> last a \<noteq> cr \<Longrightarrow>
   universal_newlines (a @ b) = universal_newlines a @ universal_newlines b"
proof (induction a rule: universal_newlines.induct)
  case 1
  then show ?case by simp
next
  case (2 c)
  then show ?case by (simp add: universal_newlines_Cons)
next
  case (3 c d cs)
  from "3.prems" have tl: "last (d # cs) \<noteq> cr" by simp
  show ?case
  proof (cases "c = cr")
    case False
    with tl "3.IH"(3) show ?thesis by (simp add: universal_newlines_Cons)
  next
    case True
    show ?thesis
    proof (cases "d = nl")
      case dn: True
      from tl have "cs = [] \<or> last cs \<noteq> cr" by (cases "cs = []") simp_all
      with "3.IH"(1) True dn show ?thesis by simp
    next
      case dn: False
      from tl "3.IH"(2) True dn have ih: "universal_newlines ((d # cs) @ b)
          = universal_newlines (d # cs) @ universal_newlines b" by simp
      from True dn have "universal_newlines ((c # d # cs) @ b) = nl # universal_newlines ((d # cs) @ b)"
        by simp
      with ih True dn show ?thesis by simp
    qed
  qed
qed

lemma universal_newlines_ends:
  "s = [] \<or> last s = nl \<Longrightarrow> universal_newlines s = [] \<or> last (universal_newlines s) = nl"
proof (induction s rule: universal_newlines.induct)
  case 1
  then show ?case by simp
next
  case (2 c)
  then show ?case by simp
next
  case (3 c d cs)
  from "3.prems" have tl: "last (d # cs) = nl" by simp
  show ?case
  proof (cases "c = cr")
    case False
    with tl "3.IH"(3) show ?thesis by (simp add: universal_newlines_Nil_iff)
  next
    case True
    show ?thesis
    proof (cases "d = nl")
      case dn: True
      show ?thesis
      proof (cases "cs = []")
        case True
        with \<open>c = cr\<close> dn show ?thesis by simp
      next
        case False
        with tl have "last cs = nl" by simp
        with "3.IH"(1) \<open>c = cr\<close> dn False show ?thesis
          by (simp add: universal_newlines_Nil_iff)
      qed
    next
      case dn: False
      with tl "3.IH"(2) True show ?thesis by (simp add: universal_newlines_Nil_iff)
    qed
  qed
qed

lemma universal_newlines_has_no_cr: "cr \<notin> set (universal_newlines s)"
  by (induction s rule: universal_newlines.induct) (auto simp: cr_neq_nl)

section \<open>Removing the generated block: basic facts\<close>

lemma start_mark_neq_end_mark: "start_mark \<noteq> end_mark"
  by (simp add: start_mark_def end_mark_def)

lemma terminated_marks: "terminated start_mark" "terminated end_mark"
  by (simp_all add: terminated_def start_mark_def end_mark_def nl_def)

lemma clean_no_marks:
  "start_mark \<notin> set (readlines content) \<or> end_mark \<notin> set (readlines content)
   \<Longrightarrow> clean_index_of_old_pubs content = content"
  by (auto simp: clean_index_of_old_pubs_def Let_def list_index_Inl split: sum.splits)

lemma clean_found:
  "list_index (readlines content) start_mark = Inr b \<Longrightarrow>
   list_index (readlines content) end_mark = Inr e \<Longrightarrow>
   clean_index_of_old_pubs content =
     concat (slice_to (readlines content) (int b - 1) @ drop (Suc e) (readlines content))"
  by (simp add: clean_index_of_old_pubs_def Let_def writelines_def slice_from_def nat_add_distrib Suc_nat_eq_nat_zadd1)

lemma slice_to_pos: "0 < b \<Longrightarrow> slice_to xs (int b - 1) = take (b - 1) xs"
  by (simp add: slice_to_def nat_diff_distrib')

lemma slice_to_minus_one: "slice_to xs (- 1) = butlast xs"
  by (simp add: slice_to_def butlast_conv_take nat_diff_distrib')

lemma count_le_one_drop:
  "count_list xs x \<le> 1 \<Longrightarrow> i < length xs \<Longrightarrow> xs ! i = x \<Longrightarrow> x \<notin> set (drop (Suc i) xs)"
proof -
  assume a: "count_list xs x \<le> 1" "i < length xs" "xs ! i = x"
  then have "take i xs @ x # drop (Suc i) xs = xs" by (metis id_take_nth_drop)
  then have "count_list xs x = count_list (take i xs @ x # drop (Suc i) xs) x" by simp
  then have "count_list xs x = count_list (take i xs) x + 1 + count_list (drop (Suc i) xs) x"
    by simp
  with a have "count_list (drop (Suc i) xs) x = 0" by simp
  then show ?thesis by (simp add: count_list_0_iff)
qed

lemma readlines_clean_pos:
  assumes "list_index (readlines content) start_mark = Inr b"
    and "list_index (readlines content) end_mark = Inr e" and "0 < b"
  shows "readlines (clean_index_of_old_pubs content)
           = take (b - 1) (readlines content) @ drop (Suc e) (readlines content)"
proof -
  let ?md = "readlines content"
  from list_index_props [OF assms(1)] have "b < length ?md" by simp
  then have lt: "b - 1 < length ?md" by simp
  have "\<forall>l\<in>set (take (b - 1) ?md). terminated l"
    using wf_lines_take [OF wf_lines_readlines lt] by blast
  moreover have "wf_lines (drop (Suc e) ?md)"
    by (rule wf_lines_drop [OF wf_lines_readlines])
  ultimately have wf: "wf_lines (take (b - 1) ?md @ drop (Suc e) ?md)"
    by (rule wf_lines_append)
  have "clean_index_of_old_pubs content = concat (take (b - 1) ?md @ drop (Suc e) ?md)"
    unfolding clean_found [OF assms(1,2)] slice_to_pos [OF assms(3)] ..
  then show ?thesis by (simp only: readlines_concat [OF wf])
qed

lemmas eval_defs = start_mark_def end_mark_def nl_def clean_index_of_old_pubs_def Let_def
  slice_to_def slice_from_def writelines_def

lemma butlast_marks:
  "start_mark = butlast start_mark @ [nl]" "end_mark = butlast end_mark @ [nl]"
  "nl \<notin> set (butlast start_mark)" "nl \<notin> set (butlast end_mark)"
  "butlast start_mark \<noteq> []" "butlast end_mark \<noteq> []"
  by (simp_all add: start_mark_def end_mark_def nl_def)

lemma readlines_unterminated_last:
  assumes "d = [] \<or> last d = nl" and "m \<noteq> []" and "nl \<notin> set m"
  shows "readlines (d @ m) = readlines d @ [m]"
  using readlines_append [OF assms(1), of m] readlines_open [OF assms(2,3)] by simp

lemma readlines_embedded_line:
  assumes "a = [] \<or> last a = nl" and "nl \<notin> set t"
  shows "readlines (a @ (t @ [nl]) @ b) = readlines a @ (t @ [nl]) # readlines b"
proof -
  from assms(2) have "terminated (t @ [nl])" by (simp add: terminated_def)
  from readlines_terminated [OF this, of b] readlines_append [OF assms(1), of "(t @ [nl]) @ b"]
  show ?thesis by simp
qed

lemma surrounded_neq:
  assumes "x \<noteq> [] \<or> y \<noteq> []"
  shows "x @ m @ y @ [c] \<noteq> m @ [c]"
proof
  assume "x @ m @ y @ [c] = m @ [c]"
  then have "length (x @ m @ y @ [c]) = length (m @ [c])" by (rule arg_cong)
  with assms show False by auto
qed

lemma readlines_clean_zero:
  assumes "list_index (readlines content) start_mark = Inr 0"
    and "list_index (readlines content) end_mark = Inr e"
  shows "readlines (clean_index_of_old_pubs content)
           = butlast (readlines content) @ drop (Suc e) (readlines content)"
proof -
  let ?md = "readlines content"
  have "\<forall>l\<in>set (butlast ?md). terminated l"
    using wf_lines_butlast_terminated [OF wf_lines_readlines] by blast
  moreover have "wf_lines (drop (Suc e) ?md)"
    by (rule wf_lines_drop [OF wf_lines_readlines])
  ultimately have wf: "wf_lines (butlast ?md @ drop (Suc e) ?md)"
    by (rule wf_lines_append)
  have "clean_index_of_old_pubs content = concat (butlast ?md @ drop (Suc e) ?md)"
    using clean_found [OF assms] by (simp add: slice_to_minus_one)
  then show ?thesis by (simp only: readlines_concat [OF wf])
qed

section \<open>Rendering and appending: basic facts\<close>

lemma foldl_append_md:
  "foldl (\<lambda>annex pub. annex @ publication_to_md pub) acc pubs = acc @ rendered pubs"
  by (induction pubs arbitrary: acc) (simp_all add: rendered_def)

lemma make_annex_eq:
  "make_annex pubs = start_mark @ comment_line @ [nl] @ [nl] @ heading_line @ rendered pubs @ end_mark"
  by (simp add: make_annex_def Let_def foldl_append_md start_mark_def end_mark_def
      comment_line_def heading_line_def nl_def)

lemma rendered_ends: "rendered pubs = [] \<or> last (rendered pubs) = nl"
  by (induction pubs) (auto simp: rendered_def publication_to_md_def Let_def nl_def)

lemma terminated_fixed: "terminated comment_line" "terminated heading_line" "terminated [nl]"
  by (simp_all add: terminated_def comment_line_def heading_line_def nl_def)

lemma readlines_make_annex:
  "readlines (make_annex pubs @ s) =
     [start_mark, comment_line, [nl], [nl], heading_line] @ readlines (rendered pubs)
       @ end_mark # readlines s"
proof -
  have "readlines (rendered pubs @ end_mark @ s) = readlines (rendered pubs) @ end_mark # readlines s"
    using readlines_append [OF rendered_ends, of pubs "end_mark @ s"]
    by (simp add: readlines_terminated terminated_marks)
  then show ?thesis
    by (simp add: make_annex_eq readlines_terminated terminated_marks terminated_fixed)
qed

lemma fixed_neq_marks:
  "comment_line \<noteq> start_mark" "comment_line \<noteq> end_mark"
  "heading_line \<noteq> start_mark" "heading_line \<noteq> end_mark"
  "[nl] \<noteq> start_mark" "[nl] \<noteq> end_mark"
  by (simp_all add: comment_line_def heading_line_def start_mark_def end_mark_def)

lemma write_new_index_eq:
  "write_new_index old_index pubs =
     ensure_nl old_index @ make_annex pubs @ [nl]"
  by (simp add: write_new_index_def ensure_nl_def Let_def nl_def)

lemma readlines_concat_terminated:
  "\<forall>x\<in>set xs. terminated x \<Longrightarrow> readlines (concat xs @ s) = xs @ readlines s"
  by (induction xs) (simp_all add: readlines_terminated)

lemma wf_lines_last: "wf_lines ls \<Longrightarrow> ls \<noteq> [] \<Longrightarrow> last ls \<noteq> [] \<and> nl \<notin> set (butlast (last ls))"
  by (induction ls rule: wf_lines.induct) auto

lemma wf_lines_nonempty: "wf_lines ls \<Longrightarrow> l \<in> set ls \<Longrightarrow> l \<noteq> []"
  by (induction ls rule: wf_lines.induct) (auto simp: terminated_def)

lemma last_concat_lines:
  "wf_lines ls \<Longrightarrow> ls \<noteq> [] \<Longrightarrow> last (concat ls) = last (last ls)"
proof (induction ls rule: wf_lines.induct)
  case 1 then show ?case by simp
next
  case (2 l) then show ?case by simp
next
  case (3 l v va)
  then have "concat (v # va) \<noteq> []" using wf_lines_nonempty [of "v # va" v] by auto
  with 3 show ?case by simp
qed

lemma all_terminated_ends:
  "\<forall>x\<in>set xs. terminated x \<Longrightarrow> concat xs = [] \<or> last (concat xs) = nl"
proof (induction xs rule: rev_induct)
  case Nil then show ?case by simp
next
  case (snoc x xs)
  then have "terminated x" by simp
  then show ?case by (simp add: terminated_def)
qed

lemma readlines_ensure_nl:
  assumes "m \<notin> set (readlines c)" and "m \<noteq> [nl]"
    and "readlines c \<noteq> [] \<longrightarrow> last (readlines c) @ [nl] \<noteq> m"
  shows "m \<notin> set (readlines (ensure_nl c))"
proof (cases "endswith_nl c")
  case True
  with assms(1) show ?thesis by (simp add: ensure_nl_def)
next
  case False
  show ?thesis
  proof (cases "c = []")
    case True
    with assms(2) show ?thesis by (simp add: ensure_nl_def endswith_nl_def)
  next
    case ne: False
    let ?ls = "readlines c"
    let ?l = "last ?ls"
    from ne have lsne: "?ls \<noteq> []" by (simp add: readlines_Nil_iff)
    from wf_lines_last [OF wf_lines_readlines lsne]
    have l: "?l \<noteq> []" "nl \<notin> set (butlast ?l)" by simp_all
    have "last c = last ?l"
      using last_concat_lines [OF wf_lines_readlines lsne] by (simp add: concat_readlines)
    with False ne have "last ?l \<noteq> nl" by (simp add: endswith_nl_def)
    moreover have "set ?l = set (butlast ?l) \<union> {last ?l}"
      using l(1) by (metis append_butlast_last_id set_append list.set(1) list.set(2))
    ultimately have nonl: "nl \<notin> set ?l" using l(2) by simp
    then have tm: "terminated (?l @ [nl])" by (simp add: terminated_def)
    have bt: "\<forall>x\<in>set (butlast ?ls). terminated x"
      using wf_lines_butlast_terminated [OF wf_lines_readlines] by blast
    have "c = concat (butlast ?ls @ [?l])" using lsne by (simp add: concat_readlines)
    then have "c @ [nl] = concat (butlast ?ls) @ (?l @ [nl]) @ []" by simp
    then have "readlines (c @ [nl]) = butlast ?ls @ readlines ((?l @ [nl]) @ [])"
      using readlines_concat_terminated [OF bt] by metis
    also have "\<dots> = butlast ?ls @ [?l @ [nl]]"
      using readlines_terminated [OF tm, of "[]"] by simp
    finally have rl: "readlines (c @ [nl]) = butlast ?ls @ [?l @ [nl]]" .
    have "m \<notin> set (butlast ?ls)" using assms(1) by (meson in_set_butlastD)
    moreover have "?l @ [nl] \<noteq> m" using assms(3) lsne by simp
    ultimately show ?thesis using False by (auto simp: ensure_nl_def rl)
  qed
qed

lemma ensure_nl_ends: "ensure_nl c = [] \<or> last (ensure_nl c) = nl"
  by (simp add: ensure_nl_def endswith_nl_def)

lemma readlines_write_new_index:
  "readlines (write_new_index old_index pubs) =
     readlines (ensure_nl old_index)
       @ [start_mark, comment_line, [nl], [nl], heading_line] @ readlines (rendered pubs)
       @ [end_mark, [nl]]"
  using readlines_append [OF ensure_nl_ends, of old_index "make_annex pubs @ [nl]"]
  by (simp add: write_new_index_eq readlines_make_annex)

lemma drop_Suc_length_append: "drop (Suc (length xs)) (xs @ y # zs) = zs"
  by (induction xs) simp_all

lemma blank_last_line:
  assumes "readlines d \<noteq> []" and "last (readlines d) = [nl]"
  shows "d = concat (butlast (readlines d)) @ [nl]" and "endswith_nl d"
proof -
  have "readlines d = butlast (readlines d) @ [[nl]]"
    using assms by (metis append_butlast_last_id)
  then have "concat (readlines d) = concat (butlast (readlines d)) @ [nl]"
    by (metis concat_append concat.simps append_Nil2)
  then show 1: "d = concat (butlast (readlines d)) @ [nl]" by (simp add: concat_readlines)
  then have "d \<noteq> [] \<and> last d = nl" by (metis snoc_eq_iff_butlast)
  then show "endswith_nl d" by (simp add: endswith_nl_def)
qed

section \<open>The profile link: basic facts\<close>

lemma links_for_Cons:
  "l ''icon'' = Some k \<Longrightarrow> l ''link'' = Some v \<Longrightarrow>
   links_for x (l # ls) = (if x = k then v # links_for x ls else links_for x ls)"
  by (auto simp: links_for_def)

lemma social_dict_last_wins:
  "\<forall>l\<in>set ls. well_formed_entry l \<Longrightarrow>
   social_dict ls acc =
     Inr (\<lambda>k. if links_for k ls = [] then acc k else Some (last (links_for k ls)))"
proof (induction ls arbitrary: acc)
  case Nil
  then show ?case by (simp add: links_for_def)
next
  case (Cons l ls)
  from Cons.prems obtain k v where kv: "l ''icon'' = Some k" "l ''link'' = Some v"
    by (auto simp: well_formed_entry_def)
  from Cons.prems have wf: "\<forall>l\<in>set ls. well_formed_entry l" by simp
  have "social_dict (l # ls) acc = social_dict ls (acc(k \<mapsto> v))"
    using kv by simp
  also have "\<dots> = Inr (\<lambda>x. if links_for x ls = [] then (acc(k \<mapsto> v)) x
                          else Some (last (links_for x ls)))"
    by (rule Cons.IH [OF wf])
  also have "(\<lambda>x. if links_for x ls = [] then (acc(k \<mapsto> v)) x
                          else Some (last (links_for x ls)))
           = (\<lambda>x. if links_for x (l # ls) = [] then acc x
                          else Some (last (links_for x (l # ls))))"
    by (rule ext) (simp add: links_for_Cons [OF kv])
  finally show ?case .
qed

section \<open>The page and its rows: basic facts\<close>

lemma find_all_loop_unlimited:
  "limit = None \<or> limit = Some 0 \<Longrightarrow>
   find_all_loop t limit gen res = res @ filter t gen"
  by (induction gen arbitrary: res) (auto simp: Let_def)

lemma find_all_loop_limited:
  "0 < n \<Longrightarrow> length res < n \<Longrightarrow>
   find_all_loop t (Some n) gen res = res @ take (n - length res) (filter t gen)"
proof (induction gen arbitrary: res)
  case Nil
  then show ?case by simp
next
  case (Cons i gen)
  show ?case
  proof (cases "t i")
    case False
    with Cons show ?thesis by simp
  next
    case True
    show ?thesis
    proof (cases "n \<le> Suc (length res)")
      case le: True
      with Cons.prems have "n - length res = Suc 0" by simp
      with True le Cons.prems show ?thesis by (simp add: Let_def)
    next
      case gt: False
      then have lt: "length (res @ [i]) < n" by simp
      define m where "m = n - Suc (length res)"
      from gt have m: "n - length res = Suc m" "n - length (res @ [i]) = m"
        by (simp_all add: m_def)
      from Cons.IH [OF Cons.prems(1) lt] True gt m show ?thesis
        by (simp add: Let_def)
    qed
  qed
qed

lemma find_all_limited: "0 < k \<Longrightarrow> find_all soup name cls (Some k) = take k (find_all soup name cls None)"
  using find_all_loop_limited [of k "[]"] find_all_loop_unlimited [of None _ _ "[]"]
  by (simp add: find_all_def)

lemma find_all_rows: "find_all soup ''tr'' (Some ''gsc_a_tr'') None = page_rows soup"
  by (simp add: find_all_def page_rows_def find_all_loop_unlimited)

lemma parse_row_well_formed: "well_formed_row r \<Longrightarrow> parse_row r = Inr (row_record r)"
  by (auto simp: well_formed_row_def parse_row_def row_record_def Let_def split: option.splits)

lemma parse_row_Inr_well_formed: "parse_row r = Inr p \<Longrightarrow> well_formed_row r"
  by (auto simp: well_formed_row_def parse_row_def Let_def split: option.splits)

lemma parse_rows_well_formed:
  "\<forall>r\<in>set rs. well_formed_row r \<Longrightarrow> parse_rows rs = Inr (map row_record rs)"
  by (induction rs) (simp_all add: parse_row_well_formed)

lemma gp_fetch:
  assumes "get_scholar_link loads file = Inr (Some link)"
    and "fetch (link @ ''&view_op=list_works&sortby=pubdate'') = Inr soup"
  shows "get_publications loads fetch file limit
           = parse_rows (find_all soup ''tr'' (Some ''gsc_a_tr'') limit)"
  unfolding get_publications_def assms(1) sum.case option.case assms(2) Let_def ..

lemma parse_rows_nth:
  assumes "\<forall>r\<in>set rows. well_formed_row r" and "k < length rows"
  shows "\<forall>i<k. parse_row (rows ! i) = Inr (map row_record (take k rows) ! i)"
proof (intro allI impI)
  fix i assume i: "i < k"
  with assms(2) have "rows ! i \<in> set rows" by simp
  with assms(1) have "parse_row (rows ! i) = Inr (row_record (rows ! i))"
    by (simp add: parse_row_well_formed)
  moreover have "map row_record (take k rows) ! i = row_record (rows ! i)"
    using i assms(2) by simp
  ultimately show "parse_row (rows ! i) = Inr (map row_record (take k rows) ! i)"
    by (simp only:)
qed

lemmas dom_defs = find_all_def find_tag_def page_rows_def well_formed_row_def row_record_def
  parse_row_def row_of_def Let_def

section \<open>The main loop: basic facts\<close>

lemma main_author_update:
  assumes "get_scholar_link loads (Some content) = Inr (Some link)"
    and "get_publications loads fetch (Some (clean_index_of_old_pubs content)) (Some 5)
           = Inr publications"
  shows "main_author loads fetch (Some content)
           = (Some (update_document content publications), None)"
  using assms by (simp add: main_author_def update_document_def)

lemma main_author_fetch_fails:
  assumes "get_scholar_link loads (Some content) = Inr (Some link)"
    and "get_publications loads fetch (Some (clean_index_of_old_pubs content)) (Some 5) = Inl e"
  shows "main_author loads fetch (Some content)
           = (Some (clean_index_of_old_pubs content), Some e)"
  using assms by (simp add: main_author_def)

section \<open>Reading back the text written: basic facts\<close>

lemma no_cr_fixed:
  "cr \<notin> set start_mark" "cr \<notin> set end_mark" "cr \<notin> set comment_line"
  "cr \<notin> set heading_line"
  by (simp_all add: start_mark_def end_mark_def comment_line_def heading_line_def cr_def)

lemma clean_no_cr:
  assumes "cr \<notin> set d"
  shows "cr \<notin> set (clean_index_of_old_pubs d)"
proof -
  have sub: "\<And>i j. set (concat (take i (readlines d) @ drop j (readlines d))) \<subseteq> set d"
  proof -
    fix i j
    have "set (concat (take i (readlines d) @ drop j (readlines d)))
            \<subseteq> set (concat (readlines d))"
      using set_take_subset [of i "readlines d"] set_drop_subset [of j "readlines d"] by auto
    then show "set (concat (take i (readlines d) @ drop j (readlines d))) \<subseteq> set d"
      by (simp only: concat_readlines)
  qed
  show ?thesis
  proof (cases "start_mark \<in> set (readlines d) \<and> end_mark \<in> set (readlines d)")
    case False
    with assms show ?thesis by (auto simp: clean_no_marks)
  next
    case True
    then obtain b e where be: "list_index (readlines d) start_mark = Inr b"
      "list_index (readlines d) end_mark = Inr e"
      using list_index_Inr_iff by metis
    have "\<exists>i. slice_to (readlines d) (int b - 1) = take i (readlines d)"
      unfolding slice_to_def by (cases "int b - 1 < 0") auto
    then obtain i where "slice_to (readlines d) (int b - 1) = take i (readlines d)" ..
    with clean_found [OF be] have
      "clean_index_of_old_pubs d = concat (take i (readlines d) @ drop (Suc e) (readlines d))"
      by simp
    with sub [of i "Suc e"] assms show ?thesis by auto
  qed
qed

lemma ensure_nl_no_cr: "cr \<notin> set c \<Longrightarrow> cr \<notin> set (ensure_nl c)"
  by (simp add: ensure_nl_def cr_neq_nl)

lemma read_back_write_new_index:
  assumes "cr \<notin> set c"
  shows "universal_newlines (write_new_index c pubs) =
           ensure_nl c @ start_mark @ comment_line @ [nl] @ [nl] @ heading_line
             @ universal_newlines (rendered pubs) @ end_mark @ [nl]"
proof -
  let ?P = "ensure_nl c @ start_mark @ comment_line @ [nl] @ [nl] @ heading_line"
  let ?E = "end_mark @ [nl]"
  have w: "write_new_index c pubs = ?P @ (rendered pubs @ ?E)"
    by (simp add: write_new_index_eq make_annex_eq)
  have pn: "cr \<notin> set ?P"
    using ensure_nl_no_cr [OF assms] no_cr_fixed by (simp add: cr_neq_nl)
  have "last ?P = nl" by (simp add: heading_line_def nl_def)
  then have pl: "?P = [] \<or> last ?P \<noteq> cr" using cr_neq_nl by simp
  have en: "cr \<notin> set ?E" using no_cr_fixed by (simp add: cr_neq_nl)
  have rl: "rendered pubs = [] \<or> last (rendered pubs) \<noteq> cr"
    using rendered_ends [of pubs] cr_neq_nl by auto
  have "universal_newlines (?P @ (rendered pubs @ ?E))
          = universal_newlines ?P @ universal_newlines (rendered pubs @ ?E)"
    by (rule universal_newlines_append [OF pl])
  also have "universal_newlines ?P = ?P" by (rule universal_newlines_no_cr [OF pn])
  also have "universal_newlines (rendered pubs @ ?E)
          = universal_newlines (rendered pubs) @ universal_newlines ?E"
    by (rule universal_newlines_append [OF rl])
  also have "universal_newlines ?E = ?E" by (rule universal_newlines_no_cr [OF en])
  finally show ?thesis by (simp add: w)
qed

lemma read_back_rendered_ends:
  "universal_newlines (rendered pubs) = [] \<or> last (universal_newlines (rendered pubs)) = nl"
  by (rule universal_newlines_ends [OF rendered_ends])

lemma readlines_block:
  assumes "r = [] \<or> last r = nl"
  shows "readlines (start_mark @ comment_line @ [nl] @ [nl] @ heading_line @ r @ end_mark @ s) =
           [start_mark, comment_line, [nl], [nl], heading_line] @ readlines r
             @ end_mark # readlines s"
proof -
  have "readlines (r @ end_mark @ s) = readlines r @ end_mark # readlines s"
    using readlines_append [OF assms, of "end_mark @ s"]
    by (simp add: readlines_terminated terminated_marks)
  then show ?thesis
    by (simp add: readlines_terminated terminated_marks terminated_fixed)
qed

lemma readlines_read_back:
  assumes "cr \<notin> set c"
  shows "readlines (universal_newlines (write_new_index c pubs)) =
           readlines (ensure_nl c)
             @ [start_mark, comment_line, [nl], [nl], heading_line]
             @ readlines (universal_newlines (rendered pubs)) @ [end_mark, [nl]]"
  using readlines_append [OF ensure_nl_ends, of c]
    readlines_block [OF read_back_rendered_ends, of pubs "[nl]"]
  by (simp add: read_back_write_new_index [OF assms])

lemma read_back_make_annex:
  "universal_newlines (make_annex pubs) =
     start_mark @ comment_line @ [nl] @ [nl] @ heading_line
       @ universal_newlines (rendered pubs) @ end_mark"
proof -
  let ?P = "start_mark @ comment_line @ [nl] @ [nl] @ heading_line"
  have m: "make_annex pubs = ?P @ (rendered pubs @ end_mark)" by (simp add: make_annex_eq)
  have pn: "cr \<notin> set ?P" using no_cr_fixed by (simp add: cr_neq_nl)
  have "last ?P = nl" by (simp add: heading_line_def nl_def)
  then have pl: "?P = [] \<or> last ?P \<noteq> cr" using cr_neq_nl by simp
  have rl: "rendered pubs = [] \<or> last (rendered pubs) \<noteq> cr"
    using rendered_ends [of pubs] cr_neq_nl by auto
  have "universal_newlines (?P @ (rendered pubs @ end_mark))
          = universal_newlines ?P @ universal_newlines (rendered pubs @ end_mark)"
    by (rule universal_newlines_append [OF pl])
  also have "universal_newlines ?P = ?P" by (rule universal_newlines_no_cr [OF pn])
  also have "universal_newlines (rendered pubs @ end_mark)
          = universal_newlines (rendered pubs) @ universal_newlines end_mark"
    by (rule universal_newlines_append [OF rl])
  also have "universal_newlines end_mark = end_mark"
    by (rule universal_newlines_no_cr [OF no_cr_fixed(2)])
  finally show ?thesis by (simp add: m)
qed

lemma readlines_read_back_annex:
  "readlines (universal_newlines (make_annex pubs)) =
     [start_mark, comment_line, [nl], [nl], heading_line]
       @ readlines (universal_newlines (rendered pubs)) @ [end_mark]"
  using readlines_block [OF read_back_rendered_ends, of pubs "[]"]
  by (simp add: read_back_make_annex)

lemma terminated_not_open_mark:
  assumes "terminated l"
  shows "l @ [nl] \<noteq> start_mark" and "l @ [nl] \<noteq> end_mark"
proof -
  from assms have "nl \<in> set l" by (metis terminated_def last_in_set)
  then have "l \<noteq> butlast start_mark" "l \<noteq> butlast end_mark"
    using butlast_marks(3,4) by auto
  then show "l @ [nl] \<noteq> start_mark" and "l @ [nl] \<noteq> end_mark"
    using butlast_marks(1,2) by (metis butlast_snoc)+
qed

lemma open_last_line_not_mark:
  assumes "l \<noteq> butlast start_mark" and "l \<noteq> butlast end_mark"
  shows "l @ [nl] \<noteq> start_mark" and "l @ [nl] \<noteq> end_mark"
  using assms butlast_marks(1,2) by (metis butlast_snoc)+

lemma clean_pos_no_marks:
  assumes b: "list_index (readlines d) start_mark = Inr b"
    and e: "list_index (readlines d) end_mark = Inr e"
    and pos: "0 < b" "b < e"
    and cs: "count_list (readlines d) start_mark \<le> 1"
    and ce: "count_list (readlines d) end_mark \<le> 1"
  shows "start_mark \<notin> set (readlines (clean_index_of_old_pubs d))"
    and "end_mark \<notin> set (readlines (clean_index_of_old_pubs d))"
proof -
  let ?md = "readlines d"
  from list_index_props [OF b]
  have pb: "b < length ?md" "?md ! b = start_mark" "start_mark \<notin> set (take b ?md)"
    by simp_all
  from list_index_props [OF e]
  have pe: "e < length ?md" "?md ! e = end_mark" "end_mark \<notin> set (take e ?md)"
    by simp_all
  from count_le_one_drop [OF cs pb(1,2)] have "start_mark \<notin> set (drop (Suc b) ?md)" .
  moreover have "set (drop (Suc e) ?md) \<subseteq> set (drop (Suc b) ?md)"
    using pos by (simp add: set_drop_subset_set_drop)
  ultimately have s1: "start_mark \<notin> set (drop (Suc e) ?md)" by blast
  have "set (take (b - 1) ?md) \<subseteq> set (take b ?md)"
    by (simp add: set_take_subset_set_take)
  with pb(3) have s2: "start_mark \<notin> set (take (b - 1) ?md)" by blast
  from count_le_one_drop [OF ce pe(1,2)] have e1: "end_mark \<notin> set (drop (Suc e) ?md)" .
  have "set (take (b - 1) ?md) \<subseteq> set (take e ?md)"
    using pos by (simp add: set_take_subset_set_take)
  with pe(3) have e2: "end_mark \<notin> set (take (b - 1) ?md)" by blast
  from s1 s2 show "start_mark \<notin> set (readlines (clean_index_of_old_pubs d))"
    by (simp add: readlines_clean_pos [OF b e pos(1)])
  from e1 e2 show "end_mark \<notin> set (readlines (clean_index_of_old_pubs d))"
    by (simp add: readlines_clean_pos [OF b e pos(1)])
qed

lemma clean_pos_last_line:
  assumes b: "list_index (readlines d) start_mark = Inr b"
    and e: "list_index (readlines d) end_mark = Inr e"
    and pos: "0 < b"
    and l1: "last (readlines d) \<noteq> butlast start_mark"
    and l2: "last (readlines d) \<noteq> butlast end_mark"
    and ne: "readlines (clean_index_of_old_pubs d) \<noteq> []"
  shows "last (readlines (clean_index_of_old_pubs d)) @ [nl] \<noteq> start_mark"
    and "last (readlines (clean_index_of_old_pubs d)) @ [nl] \<noteq> end_mark"
proof -
  let ?md = "readlines d"
  let ?lc = "readlines (clean_index_of_old_pubs d)"
  note rl = readlines_clean_pos [OF b e pos]
  from list_index_props [OF b] have "b < length ?md" by simp
  then have lt: "b - 1 < length ?md" by simp
  have "last ?lc @ [nl] \<noteq> start_mark \<and> last ?lc @ [nl] \<noteq> end_mark"
  proof (cases "drop (Suc e) ?md = []")
    case True
    with rl ne have "?lc = take (b - 1) ?md" "take (b - 1) ?md \<noteq> []" by simp_all
    then have "last ?lc \<in> set (take (b - 1) ?md)" by simp
    then have "terminated (last ?lc)"
      using wf_lines_take [OF wf_lines_readlines lt] by blast
    then show ?thesis using terminated_not_open_mark by blast
  next
    case False
    then have "last ?lc = last ?md" by (simp add: rl)
    with l1 l2 show ?thesis using open_last_line_not_mark by simp
  qed
  then show "last ?lc @ [nl] \<noteq> start_mark" and "last ?lc @ [nl] \<noteq> end_mark" by simp_all
qed

lemma marks_neq_nl: "start_mark \<noteq> [nl]" "end_mark \<noteq> [nl]"
  by (simp_all add: start_mark_def end_mark_def)

lemma take_drop_middle: "take (length ys) (drop (length xs) (xs @ ys @ zs)) = ys"
  by simp

lemma count_zero: "x \<notin> set xs \<Longrightarrow> count_list xs x = 0"
  by (simp add: count_list_0_iff)

lemma strip_read_back_blank_end:
  assumes nocr: "cr \<notin> set c"
    and s: "start_mark \<notin> set (readlines c)" and e: "end_mark \<notin> set (readlines c)"
    and ne: "readlines c \<noteq> []" and bl: "last (readlines c) = [nl]"
    and r: "end_mark \<notin> set (readlines (universal_newlines (rendered pubs)))"
  shows "clean_index_of_old_pubs (universal_newlines (write_new_index c pubs)) = c"
proof -
  let ?md = "readlines c"
  let ?r = "readlines (universal_newlines (rendered pubs))"
  let ?pre = "?md @ [start_mark, comment_line, [nl], [nl], heading_line] @ ?r"
  let ?new = "universal_newlines (write_new_index c pubs)"
  note b = blank_last_line [OF ne bl]
  have "ensure_nl c = c" using b(2) by (simp add: ensure_nl_def)
  then have rl: "readlines ?new = ?pre @ end_mark # [[nl]]"
    by (simp add: readlines_read_back [OF nocr])
  have "list_index (?md @ start_mark # ([comment_line, [nl], [nl], heading_line]
          @ ?r @ [end_mark, [nl]])) start_mark = Inr (length ?md)"
    using s by (rule list_index_first)
  then have bi: "list_index (readlines ?new) start_mark = Inr (length ?md)"
    by (simp add: rl)
  have "end_mark \<notin> set ?pre"
    using e r fixed_neq_marks start_mark_neq_end_mark by auto
  then have "list_index (?pre @ end_mark # [[nl]]) end_mark = Inr (length ?pre)"
    by (rule list_index_first)
  then have ei: "list_index (readlines ?new) end_mark = Inr (length ?pre)"
    by (simp only: rl)
  have pos: "0 < length ?md" using ne by simp
  have t: "take (length ?md - 1) (readlines ?new) = butlast ?md"
    using pos by (simp add: rl butlast_conv_take)
  have dr: "drop (Suc (length ?pre)) (readlines ?new) = [[nl]]"
    by (simp only: rl drop_Suc_length_append)
  have "clean_index_of_old_pubs ?new = concat (butlast ?md @ [[nl]])"
    using clean_found [OF bi ei] by (simp only: slice_to_pos [OF pos] t dr)
  also have "\<dots> = c" using b(1) by simp
  finally show ?thesis .
qed

lemma read_back_one_block:
  assumes nocr: "cr \<notin> set c"
    and s: "start_mark \<notin> set (readlines (ensure_nl c))"
    and e: "end_mark \<notin> set (readlines (ensure_nl c))"
    and rs: "start_mark \<notin> set (readlines (universal_newlines (rendered pubs)))"
    and re: "end_mark \<notin> set (readlines (universal_newlines (rendered pubs)))"
  shows "count_list (readlines (universal_newlines (write_new_index c pubs))) start_mark = 1"
    and "count_list (readlines (universal_newlines (write_new_index c pubs))) end_mark = 1"
    and "generated_block (readlines (universal_newlines (write_new_index c pubs)))
           = Some (readlines (universal_newlines (make_annex pubs)))"
proof -
  let ?c = "readlines (ensure_nl c)"
  let ?r = "readlines (universal_newlines (rendered pubs))"
  let ?fixed = "[comment_line, [nl], [nl], heading_line]"
  let ?L = "readlines (universal_newlines (write_new_index c pubs))"
  have L: "?L = ?c @ start_mark # ?fixed @ ?r @ [end_mark, [nl]]"
    by (simp add: readlines_read_back [OF nocr])
  have fs: "start_mark \<notin> set ?fixed" and fe: "end_mark \<notin> set ?fixed"
    using fixed_neq_marks by auto
  show "count_list ?L start_mark = 1"
    using s rs fixed_neq_marks start_mark_neq_end_mark marks_neq_nl
    by (simp add: L count_zero)
  show "count_list ?L end_mark = 1"
    using e re fixed_neq_marks start_mark_neq_end_mark marks_neq_nl
    by (simp add: L count_zero)
  have b: "list_index ?L start_mark = Inr (length ?c)"
    unfolding L using s by (rule list_index_first)
  let ?pre = "?c @ start_mark # ?fixed @ ?r"
  have "end_mark \<notin> set ?pre"
    using e re fe start_mark_neq_end_mark by auto
  then have "list_index (?pre @ end_mark # [[nl]]) end_mark = Inr (length ?pre)"
    by (rule list_index_first)
  then have en: "list_index ?L end_mark = Inr (length ?pre)" by (simp add: L)
  let ?blk = "start_mark # ?fixed @ ?r @ [end_mark]"
  have len: "Suc (length ?pre) - length ?c = length ?blk" by simp
  have L2: "?L = ?c @ ?blk @ [[nl]]" by (simp add: L)
  have "take (Suc (length ?pre) - length ?c) (drop (length ?c) ?L) = ?blk"
    by (simp only: len L2 take_drop_middle)
  moreover have "readlines (universal_newlines (make_annex pubs)) = ?blk"
    by (simp add: readlines_read_back_annex)
  ultimately show "generated_block ?L = Some (readlines (universal_newlines (make_annex pubs)))"
    by (simp only: generated_block_def b en sum.case)
qed

lemmas doc_defs = profile_doc_def front_matter_def old_block_doc_def

section \<open>Claim C1: removing the block that was just appended\<close>

text \<open>
  Claim C1 says that updating a document (the old block removed, the new one appended) and
  then removing the block gives the original content back. It does not: the update adds a
  newline to a text that does not end with one and an empty line after the block, and the
  removal takes the line before the start marker with it. Here the text
  \<^verbatim>\<open>Bio\nText\<close>, which has no block, comes back as \<^verbatim>\<open>Bio\n\n\<close>.
\<close>

theorem roundtrip_loses_last_line:
  "start_mark \<notin> set (readlines ''Bio\<newline>Text'')
   \<and> end_mark \<notin> set (readlines ''Bio\<newline>Text'')
   \<and> clean_index_of_old_pubs (update_document ''Bio\<newline>Text'' [pub_A]) = ''Bio\<newline>\<newline>''
   \<and> clean_index_of_old_pubs (update_document ''Bio\<newline>Text'' [pub_A]) \<noteq> ''Bio\<newline>Text''
   \<and> universal_newlines (update_document ''Bio\<newline>Text'' [pub_A])
        = update_document ''Bio\<newline>Text'' [pub_A]"
  by (simp add: update_document_def write_new_index_def make_annex_def publication_to_md_def
      endswith_nl_def pub_A_def eval_defs cr_def)

text \<open>
  Claim C1, amended: take a document as read from the file, in which no marker line is left
  once its block, if it has one, is removed, and whose last line is then an empty line;
  and a list of records whose rendered text, as read back, has no end marker line. Updating
  the document, reading it back and removing the block gives what the removal leaves of the
  original document: the original document itself when it had no block.
\<close>

theorem strip_after_update_roundtrip:
  assumes "cr \<notin> set d"
    and "start_mark \<notin> set (readlines (clean_index_of_old_pubs d))"
    and "end_mark \<notin> set (readlines (clean_index_of_old_pubs d))"
    and "readlines (clean_index_of_old_pubs d) \<noteq> []"
    and "last (readlines (clean_index_of_old_pubs d)) = [nl]"
    and "end_mark \<notin> set (readlines (universal_newlines (rendered pubs)))"
  shows "clean_index_of_old_pubs (universal_newlines (update_document d pubs))
           = clean_index_of_old_pubs d
     \<and> (start_mark \<notin> set (readlines d) \<or> end_mark \<notin> set (readlines d) \<longrightarrow>
          clean_index_of_old_pubs (universal_newlines (update_document d pubs)) = d)"
proof -
  have "clean_index_of_old_pubs (universal_newlines (update_document d pubs))
           = clean_index_of_old_pubs d"
    unfolding update_document_def
    by (rule strip_read_back_blank_end [OF clean_no_cr [OF assms(1)] assms(2-6)])
  then show ?thesis by (auto simp: clean_no_marks)
qed

theorem strip_after_update_roundtrip_witness:
  "clean_index_of_old_pubs profile_doc = front_matter @ ''Bio\<newline>\<newline>''
   \<and> clean_index_of_old_pubs (universal_newlines (update_document profile_doc [pub_A, pub_B]))
        = front_matter @ ''Bio\<newline>\<newline>''
   \<and> clean_index_of_old_pubs (universal_newlines (update_document ''Bio\<newline>\<newline>'' [pub_A, pub_B]))
        = ''Bio\<newline>\<newline>''"
proof -
  have c: "clean_index_of_old_pubs profile_doc = front_matter @ ''Bio\<newline>\<newline>''"
    by (simp add: doc_defs eval_defs)
  have 1: "cr \<notin> set profile_doc"
    by (simp add: doc_defs eval_defs cr_def)
  have 2: "start_mark \<notin> set (readlines (clean_index_of_old_pubs profile_doc))"
    and 3: "end_mark \<notin> set (readlines (clean_index_of_old_pubs profile_doc))"
    and 4: "readlines (clean_index_of_old_pubs profile_doc) \<noteq> []"
    and 5: "last (readlines (clean_index_of_old_pubs profile_doc)) = [nl]"
    unfolding c by (simp_all add: front_matter_def eval_defs)
  have 6: "end_mark \<notin> set (readlines (universal_newlines (rendered [pub_A, pub_B])))"
    by (simp add: rendered_def publication_to_md_def pub_A_def pub_B_def eval_defs cr_def)
  have b1: "cr \<notin> set ''Bio\<newline>\<newline>''" by (simp add: cr_def)
  have b2: "start_mark \<notin> set (readlines ''Bio\<newline>\<newline>'')"
    and b3: "end_mark \<notin> set (readlines ''Bio\<newline>\<newline>'')"
    by (simp_all add: eval_defs)
  have bc: "clean_index_of_old_pubs ''Bio\<newline>\<newline>'' = ''Bio\<newline>\<newline>''"
    using b2 by (simp add: clean_no_marks)
  have b4: "start_mark \<notin> set (readlines (clean_index_of_old_pubs ''Bio\<newline>\<newline>''))"
    and b5: "end_mark \<notin> set (readlines (clean_index_of_old_pubs ''Bio\<newline>\<newline>''))"
    and b6: "readlines (clean_index_of_old_pubs ''Bio\<newline>\<newline>'') \<noteq> []"
    and b7: "last (readlines (clean_index_of_old_pubs ''Bio\<newline>\<newline>'')) = [nl]"
    unfolding bc by (simp_all add: eval_defs)
  note t1 = strip_after_update_roundtrip [OF 1 2 3 4 5 6]
  note t2 = strip_after_update_roundtrip [OF b1 b4 b5 b6 b7 6]
  from t1 have r1: "clean_index_of_old_pubs (universal_newlines (update_document profile_doc [pub_A, pub_B]))
        = front_matter @ ''Bio\<newline>\<newline>''"
    unfolding c by (rule conjunct1)
  from t2 b2 have r2: "clean_index_of_old_pubs (universal_newlines (update_document ''Bio\<newline>\<newline>'' [pub_A, pub_B]))
        = ''Bio\<newline>\<newline>''"
    by blast
  from c r1 r2 show ?thesis by (intro conjI)
qed

section \<open>Claim C2: an author with the default link\<close>

text \<open>
  Claim C2 says that for an author whose link is the default one \<^verbatim>\<open>get_scholar_link\<close>
  returns \<^verbatim>\<open>None\<close> and the document is left untouched. The link is \<^verbatim>\<open>None\<close>, but
  \<^verbatim>\<open>main\<close> calls \<^verbatim>\<open>clean_index_of_old_pubs\<close> before it tests the link, so a block
  that is in the document is removed.
\<close>

theorem default_link_document_stripped:
  "get_scholar_link (\<lambda>c. Inr [''social'' \<mapsto> default_only]) (Some one_block) = Inr None
   \<and> main_author (\<lambda>c. Inr [''social'' \<mapsto> default_only]) (\<lambda>u. Inl FetchError) (Some one_block)
       = (Some ''Bio\<newline>\<newline>'', None)
   \<and> one_block \<noteq> ''Bio\<newline>\<newline>''"
  by (simp add: main_author_def get_scholar_link_def parse_markdown_def default_only_def
      one_block_def eval_defs)

text \<open>
  Claim C2, amended: for an author whose link is the default one, \<^verbatim>\<open>get_scholar_link\<close>
  returns \<^verbatim>\<open>None\<close>, nothing is fetched or appended, and the pass leaves in the file what
  \<^verbatim>\<open>clean_index_of_old_pubs\<close> leaves; the document is unchanged when it lacks one of
  the two marker lines.
\<close>

theorem default_link_strips_only:
  assumes "loads content = Inr author_metadata"
    and "author_metadata ''social'' = Some ls"
    and "\<forall>l\<in>set ls. well_formed_entry l"
    and "links_for ''graduation-cap'' ls \<noteq> []"
    and "last (links_for ''graduation-cap'' ls) = default_link"
  shows "get_scholar_link loads (Some content) = Inr None
     \<and> main_author loads fetch (Some content) = (Some (clean_index_of_old_pubs content), None)
     \<and> (start_mark \<notin> set (readlines content) \<or> end_mark \<notin> set (readlines content)
          \<longrightarrow> main_author loads fetch (Some content) = (Some content, None))"
proof -
  have "parse_markdown loads (Some content) = Inr author_metadata"
    using assms(1) by (simp add: parse_markdown_def)
  with assms social_dict_last_wins [OF assms(3), of Map.empty]
  have "get_scholar_link loads (Some content) = Inr None"
    by (simp add: get_scholar_link_def)
  then show ?thesis by (simp add: main_author_def clean_no_marks)
qed

theorem default_link_strips_only_witness:
  "get_scholar_link (\<lambda>c. Inr [''social'' \<mapsto> default_only]) (Some ''Bio\<newline>'') = Inr None
   \<and> main_author (\<lambda>c. Inr [''social'' \<mapsto> default_only]) (\<lambda>u. Inl FetchError) (Some ''Bio\<newline>'')
       = (Some ''Bio\<newline>'', None)"
proof -
  let ?loads = "\<lambda>c::string. (Inr [''social'' \<mapsto> default_only] :: error + metadata)"
  have 1: "?loads ''Bio\<newline>'' = Inr [''social'' \<mapsto> default_only]" by simp
  have 2: "[''social'' \<mapsto> default_only] ''social'' = Some default_only" by simp
  have 3: "\<forall>l\<in>set default_only. well_formed_entry l"
    by (simp add: default_only_def well_formed_entry_def)
  have 4: "links_for ''graduation-cap'' default_only \<noteq> []"
    and 5: "last (links_for ''graduation-cap'' default_only) = default_link"
    by (simp_all add: default_only_def links_for_def)
  have 6: "start_mark \<notin> set (readlines ''Bio\<newline>'')" by (simp add: eval_defs)
  note t = default_link_strips_only [of ?loads "''Bio\<newline>''" "[''social'' \<mapsto> default_only]"
      default_only "\<lambda>u. Inl FetchError", OF 1 2 3 4 5]
  from t 6 show ?thesis by blast
qed

section \<open>Claim C3: what is removed\<close>

text \<open>
  Claim C3 says that, with both markers present, only the blank separator line before the
  start marker and the block itself are removed, every other line being left untouched.
  The code removes the line before the start marker whatever it holds. \<^verbatim>\<open>main\<close> appends
  the block right after the last line of the text, with no empty line between them, so the
  line removed from a file that the program wrote is the last line of the text: here the
  line \<^verbatim>\<open>Bio\<close>.
\<close>

theorem strip_removes_content_line:
  "write_new_index ''Bio\<newline>'' [] = ''Bio\<newline>'' @ make_annex [] @ ''\<newline>''
   \<and> clean_index_of_old_pubs (write_new_index ''Bio\<newline>'' []) = ''\<newline>''
   \<and> clean_index_of_old_pubs (''Bio\<newline>'' @ start_mark @ end_mark @ ''\<newline>'') = ''\<newline>''"
  by (simp add: write_new_index_def make_annex_def endswith_nl_def eval_defs)

section \<open>Claim C4: removing the block twice\<close>

text \<open>
  Claim C4 says that \<^verbatim>\<open>clean_index_of_old_pubs\<close> is idempotent on every document.
  A document with two generated blocks refutes it: each call removes the first block only.
\<close>

theorem strip_not_idempotent_two_blocks:
  "clean_index_of_old_pubs two_blocks = ''\<newline>'' @ start_mark @ end_mark
   \<and> clean_index_of_old_pubs (clean_index_of_old_pubs two_blocks) = []
   \<and> clean_index_of_old_pubs (clean_index_of_old_pubs two_blocks)
        \<noteq> clean_index_of_old_pubs two_blocks"
  by (simp add: two_blocks_def eval_defs)

text \<open>
  Claim C4, amended: for every document with at most one start marker line in which, when
  both marker lines are present, the start marker is not the first line and comes before
  the first end marker, removing the block twice gives the same text as removing it once.
\<close>

theorem strip_idempotent_single_block:
  assumes "count_list (readlines content) start_mark \<le> 1"
    and "start_mark \<notin> set (readlines content) \<or> end_mark \<notin> set (readlines content) \<or>
         (\<exists>b e. list_index (readlines content) start_mark = Inr b \<and>
                list_index (readlines content) end_mark = Inr e \<and> 0 < b \<and> b < e)"
  shows "clean_index_of_old_pubs (clean_index_of_old_pubs content) = clean_index_of_old_pubs content"
proof (cases "start_mark \<notin> set (readlines content) \<or> end_mark \<notin> set (readlines content)")
  case True
  then show ?thesis by (simp only: clean_no_marks)
next
  case False
  let ?md = "readlines content"
  from False assms(2) obtain b e where be: "list_index ?md start_mark = Inr b"
    "list_index ?md end_mark = Inr e" and pos: "0 < b" "b < e" by blast
  from list_index_props [OF be(1)]
  have b: "b < length ?md" "?md ! b = start_mark" "start_mark \<notin> set (take b ?md)"
    by simp_all
  from count_le_one_drop [OF assms(1) b(1,2)] have "start_mark \<notin> set (drop (Suc b) ?md)" .
  moreover have "set (drop (Suc e) ?md) \<subseteq> set (drop (Suc b) ?md)"
    using pos by (simp add: set_drop_subset_set_drop)
  ultimately have 1: "start_mark \<notin> set (drop (Suc e) ?md)" by blast
  have "set (take (b - 1) ?md) \<subseteq> set (take b ?md)"
    by (simp add: set_take_subset_set_take)
  with b(3) have 2: "start_mark \<notin> set (take (b - 1) ?md)" by blast
  from 1 2 have "start_mark \<notin> set (readlines (clean_index_of_old_pubs content))"
    by (simp add: readlines_clean_pos [OF be pos(1)])
  then show ?thesis by (simp add: clean_no_marks)
qed

theorem strip_idempotent_single_block_witness:
  "count_list (readlines one_block) start_mark \<le> 1
   \<and> list_index (readlines one_block) start_mark = Inr 2
   \<and> list_index (readlines one_block) end_mark = Inr 3
   \<and> clean_index_of_old_pubs (clean_index_of_old_pubs one_block) = clean_index_of_old_pubs one_block"
proof -
  have c: "count_list (readlines one_block) start_mark \<le> 1"
    by (simp add: one_block_def eval_defs)
  have b: "list_index (readlines one_block) start_mark = Inr 2"
    by (simp add: one_block_def eval_defs)
  have e: "list_index (readlines one_block) end_mark = Inr 3"
    by (simp add: one_block_def eval_defs)
  from b e have "\<exists>b e. list_index (readlines one_block) start_mark = Inr b \<and>
                list_index (readlines one_block) end_mark = Inr e \<and> 0 < b \<and> b < e" by simp
  with c strip_idempotent_single_block [of one_block] b e show ?thesis by blast
qed

section \<open>Claim C5: the profile link\<close>

text \<open>
  Claim C5: \<^verbatim>\<open>get_scholar_link\<close> builds a dictionary from icon names to links in which
  the last entry with a given icon wins, and returns \<^verbatim>\<open>None\<close> exactly when no entry has
  the icon \<^verbatim>\<open>graduation-cap\<close> or the link kept for it is the default link; otherwise it
  returns the link kept for it. The entries are those of a front matter that parses and
  has a \<^verbatim>\<open>social\<close> list whose entries have an icon and a link.
\<close>

theorem get_scholar_link_last_wins:
  assumes "parse_markdown loads file = Inr author_metadata"
    and "author_metadata ''social'' = Some ls"
    and "\<forall>l\<in>set ls. well_formed_entry l"
  shows "social_dict ls Map.empty =
           Inr (\<lambda>k. if links_for k ls = [] then None else Some (last (links_for k ls)))
     \<and> get_scholar_link loads file =
         Inr (if links_for ''graduation-cap'' ls = []
                 \<or> last (links_for ''graduation-cap'' ls) = default_link
              then None
              else Some (last (links_for ''graduation-cap'' ls)))"
  using assms social_dict_last_wins [OF assms(3), of Map.empty]
  by (simp add: get_scholar_link_def)

theorem get_scholar_link_last_wins_witness:
  "get_scholar_link (\<lambda>c. Inr [''social'' \<mapsto> two_caps]) (Some ''Bio'')
     = Inr (Some ''https://scholar.google.com/citations?user=abc'')"
proof -
  let ?loads = "\<lambda>c::string. (Inr [''social'' \<mapsto> two_caps] :: error + metadata)"
  have 1: "parse_markdown ?loads (Some ''Bio'') = Inr [''social'' \<mapsto> two_caps]"
    by (simp add: parse_markdown_def)
  have 2: "[''social'' \<mapsto> two_caps] ''social'' = Some two_caps" by simp
  have 3: "\<forall>l\<in>set two_caps. well_formed_entry l"
    by (simp add: two_caps_def well_formed_entry_def)
  have 4: "links_for ''graduation-cap'' two_caps
             = [default_link, ''https://scholar.google.com/citations?user=abc'']"
    by (simp add: two_caps_def links_for_def)
  from get_scholar_link_last_wins [of ?loads "Some ''Bio''" "[''social'' \<mapsto> two_caps]" two_caps]
    1 2 3
  show ?thesis by (simp add: 4 default_link_def)
qed

section \<open>Claim C6: the rows within the limit\<close>

text \<open>
  Claim C6 says that for a page with N well-formed rows and every limit k below N,
  \<^verbatim>\<open>get_publications\<close> returns exactly k records. For k = 0 it does not: the loop of
  \<^verbatim>\<open>find_all\<close> tests \<^verbatim>\<open>if limit and len(results) >= limit\<close>, so a limit of 0 is no
  limit, and a page with one row gives one record.
\<close>

theorem get_publications_limit_zero:
  "page_rows page_one_row = [row_of ''A'' ''X, Y'' ''2020'']
   \<and> well_formed_row (row_of ''A'' ''X, Y'' ''2020'')
   \<and> get_publications loads_custom (\<lambda>u. Inr page_one_row) (Some ''Bio'') (Some 0)
       = Inr [\<lparr>title = ''A'', authors = ''X, Y'', year = ''2020''\<rparr>]"
proof -
  let ?fetch = "\<lambda>u::string. (Inr page_one_row :: error + node)"
  have r: "page_rows page_one_row = [row_of ''A'' ''X, Y'' ''2020'']"
    by (simp add: page_one_row_def page_rows_def row_of_def)
  have wa: "well_formed_row (row_of ''A'' ''X, Y'' ''2020'')"
    by (simp add: dom_defs)
  have rec: "row_record (row_of ''A'' ''X, Y'' ''2020'')
               = \<lparr>title = ''A'', authors = ''X, Y'', year = ''2020''\<rparr>"
    by (simp add: dom_defs)
  have 1: "get_scholar_link loads_custom (Some ''Bio'')
             = Inr (Some ''https://scholar.google.com/citations?user=abc'')"
    by (simp add: get_scholar_link_def parse_markdown_def loads_custom_def two_caps_def
        default_link_def)
  have 2: "?fetch (''https://scholar.google.com/citations?user=abc''
             @ ''&view_op=list_works&sortby=pubdate'') = Inr page_one_row" by simp
  have f: "find_all page_one_row ''tr'' (Some ''gsc_a_tr'') (Some 0) = page_rows page_one_row"
    by (simp add: find_all_def page_rows_def find_all_loop_unlimited)
  have "get_publications loads_custom ?fetch (Some ''Bio'') (Some 0)
          = parse_rows (page_rows page_one_row)"
    by (simp only: gp_fetch [of loads_custom "Some ''Bio''" _ ?fetch page_one_row, OF 1 2] f)
  also have "\<dots> = Inr [row_record (row_of ''A'' ''X, Y'' ''2020'')]"
    using wa by (simp add: r parse_row_well_formed)
  finally show ?thesis using wa by (simp add: r rec)
qed

text \<open>
  Claim C6, amended: for a page with N well-formed rows and every limit k with
  0 < k < N, \<^verbatim>\<open>get_publications\<close> returns exactly k records, those of the first k rows of
  the page in document order.
\<close>

theorem get_publications_limit:
  assumes "get_scholar_link loads file = Inr (Some link)"
    and "fetch (link @ ''&view_op=list_works&sortby=pubdate'') = Inr soup"
    and "\<forall>r\<in>set (page_rows soup). well_formed_row r"
    and "0 < k" and "k < length (page_rows soup)"
  shows "get_publications loads fetch file (Some k) = Inr (map row_record (take k (page_rows soup)))
     \<and> length (map row_record (take k (page_rows soup))) = k
     \<and> (\<forall>i<k. parse_row (page_rows soup ! i) = Inr (map row_record (take k (page_rows soup)) ! i))"
proof -
  have rows: "find_all soup ''tr'' (Some ''gsc_a_tr'') (Some k) = take k (page_rows soup)"
    using find_all_limited [OF assms(4)] by (simp only: find_all_rows)
  have wf: "\<forall>r\<in>set (take k (page_rows soup)). well_formed_row r"
  proof
    fix r assume "r \<in> set (take k (page_rows soup))"
    then have "r \<in> set (page_rows soup)" by (rule in_set_takeD)
    with assms(3) show "well_formed_row r" by simp
  qed
  have 1: "get_publications loads fetch file (Some k) = Inr (map row_record (take k (page_rows soup)))"
    by (simp only: gp_fetch [of loads "file" link fetch soup, OF assms(1,2)] rows
        parse_rows_well_formed [OF wf])
  have 2: "length (map row_record (take k (page_rows soup))) = k"
    using assms(5) by simp
  note 3 = parse_rows_nth [OF assms(3,5)]
  from 1 2 3 show ?thesis by (intro conjI)
qed

theorem get_publications_limit_witness:
  "length (page_rows page_two_rows) = 2
   \<and> get_publications loads_custom (\<lambda>u. Inr page_two_rows) (Some ''Bio'') (Some 1)
       = Inr [\<lparr>title = ''A'', authors = ''X, Y'', year = ''2020''\<rparr>]"
proof -
  let ?fetch = "\<lambda>u::string. (Inr page_two_rows :: error + node)"
  have 1: "get_scholar_link loads_custom (Some ''Bio'')
             = Inr (Some ''https://scholar.google.com/citations?user=abc'')"
    by (simp add: get_scholar_link_def parse_markdown_def loads_custom_def two_caps_def
        default_link_def)
  have 2: "?fetch (''https://scholar.google.com/citations?user=abc''
             @ ''&view_op=list_works&sortby=pubdate'') = Inr page_two_rows" by simp
  have r: "page_rows page_two_rows = [row_of ''A'' ''X, Y'' ''2020'', row_of ''B'' ''Z'' ''2019'']"
    by (simp add: page_two_rows_def page_rows_def row_of_def)
  have wa: "well_formed_row (row_of ''A'' ''X, Y'' ''2020'')"
    and wb: "well_formed_row (row_of ''B'' ''Z'' ''2019'')"
    by (simp_all add: dom_defs)
  have 3: "\<forall>r\<in>set (page_rows page_two_rows). well_formed_row r"
    using wa wb by (simp add: r)
  have 4: "0 < (1::nat)" by simp
  have 5: "1 < length (page_rows page_two_rows)" by (simp add: r)
  have rec: "row_record (row_of ''A'' ''X, Y'' ''2020'')
               = \<lparr>title = ''A'', authors = ''X, Y'', year = ''2020''\<rparr>"
    by (simp add: dom_defs)
  note t = get_publications_limit [of loads_custom "Some ''Bio''"
      "''https://scholar.google.com/citations?user=abc''" ?fetch page_two_rows 1, OF 1 2 3 4 5]
  from t show ?thesis by (simp add: r rec)
qed

section \<open>Claim C7: the scenario with two records\<close>

text \<open>
  Claim C7: for a text that does not end with a newline and the records
  \<^verbatim>\<open>{title: A, year: 2020, authors: X, Y}\<close> and \<^verbatim>\<open>{title: B, year: 2019, authors: Z}\<close>,
  the text written is the original text, a newline, the block (start marker line, comment
  line, two empty lines, heading, two lines per record, end marker line) and one more empty
  line. This holds for the text \<^verbatim>\<open>old_index\<close> that \<^verbatim>\<open>main\<close> reads back before it
  appends, and so for the whole update of a document that has no block to remove.
\<close>

theorem update_scenario_two_records:
  assumes "\<not> endswith_nl old_index"
  shows "write_new_index old_index [pub_A, pub_B] =
           old_index @ ''\<newline>''
             @ ''<!-- PUBLICATIONS START -->\<newline><!-- This content is automatically generated by get_citations.py. Don't touch -->\<newline>\<newline>\<newline>## Publications\<newline>- **A** (2020)\<newline>  - X, Y\<newline>- **B** (2019)\<newline>  - Z\<newline><!-- PUBLICATIONS END -->\<newline>''
             @ ''\<newline>''
     \<and> (start_mark \<notin> set (readlines old_index) \<or> end_mark \<notin> set (readlines old_index) \<longrightarrow>
          update_document old_index [pub_A, pub_B] =
           old_index @ ''\<newline>''
             @ ''<!-- PUBLICATIONS START -->\<newline><!-- This content is automatically generated by get_citations.py. Don't touch -->\<newline>\<newline>\<newline>## Publications\<newline>- **A** (2020)\<newline>  - X, Y\<newline>- **B** (2019)\<newline>  - Z\<newline><!-- PUBLICATIONS END -->\<newline>''
             @ ''\<newline>'')"
proof -
  have 1: "write_new_index old_index [pub_A, pub_B] =
           old_index @ ''\<newline>''
             @ ''<!-- PUBLICATIONS START -->\<newline><!-- This content is automatically generated by get_citations.py. Don't touch -->\<newline>\<newline>\<newline>## Publications\<newline>- **A** (2020)\<newline>  - X, Y\<newline>- **B** (2019)\<newline>  - Z\<newline><!-- PUBLICATIONS END -->\<newline>''
             @ ''\<newline>''"
    using assms
    by (simp add: write_new_index_def make_annex_def publication_to_md_def Let_def
        pub_A_def pub_B_def)
  then show ?thesis by (auto simp: update_document_def clean_no_marks)
qed

theorem update_scenario_two_records_witness:
  "\<not> endswith_nl ''Bio''
   \<and> update_document ''Bio'' [pub_A, pub_B] =
       ''Bio\<newline><!-- PUBLICATIONS START -->\<newline><!-- This content is automatically generated by get_citations.py. Don't touch -->\<newline>\<newline>\<newline>## Publications\<newline>- **A** (2020)\<newline>  - X, Y\<newline>- **B** (2019)\<newline>  - Z\<newline><!-- PUBLICATIONS END -->\<newline>\<newline>''"
proof -
  have h: "\<not> endswith_nl ''Bio''" by (simp add: endswith_nl_def nl_def)
  have m: "start_mark \<notin> set (readlines ''Bio'')" by (simp add: eval_defs)
  from update_scenario_two_records [OF h] m h show ?thesis by simp
qed

section \<open>Claim C8: one block after an update\<close>

text \<open>
  Claim C8 says that a document with one generated block has, after an update, exactly one
  block, holding the new records only. The text of a record is written into the block as
  it is: a record whose title holds a start marker line leaves the updated document with
  two start marker lines.
\<close>

theorem update_with_marker_in_record:
  "count_list (readlines profile_doc) start_mark = 1
   \<and> count_list (readlines profile_doc) end_mark = 1
   \<and> generated_block (readlines profile_doc)
        = Some [start_mark, ''- **Old** (1999)\<newline>'', end_mark]
   \<and> count_list (readlines (universal_newlines (update_document profile_doc [pub_marker])))
        start_mark = 2"
  by (simp add: doc_defs update_document_def write_new_index_def make_annex_def
      publication_to_md_def endswith_nl_def pub_marker_def generated_block_def eval_defs cr_def)

text \<open>
  Claim C8, amended: take a document as read from the file with exactly one start marker
  line and one end marker line, the start marker not on the first line and before the end
  marker, whose last line is not a marker text without its newline; and a list of records
  whose rendered text, as read back, has no marker line. The updated document, as read
  back, has exactly one start marker line and one end marker line, and the lines from the
  one to the other are the block rendered from the new records.
\<close>

theorem update_leaves_one_block:
  assumes "cr \<notin> set d"
    and "list_index (readlines d) start_mark = Inr b"
    and "list_index (readlines d) end_mark = Inr e"
    and "0 < b" and "b < e"
    and "count_list (readlines d) start_mark \<le> 1"
    and "count_list (readlines d) end_mark \<le> 1"
    and "last (readlines d) \<noteq> butlast start_mark"
    and "last (readlines d) \<noteq> butlast end_mark"
    and "start_mark \<notin> set (readlines (universal_newlines (rendered pubs)))"
    and "end_mark \<notin> set (readlines (universal_newlines (rendered pubs)))"
  shows "count_list (readlines (universal_newlines (update_document d pubs))) start_mark = 1
     \<and> count_list (readlines (universal_newlines (update_document d pubs))) end_mark = 1
     \<and> generated_block (readlines (universal_newlines (update_document d pubs)))
          = Some (readlines (universal_newlines (make_annex pubs)))"
proof -
  let ?c = "clean_index_of_old_pubs d"
  note nm = clean_pos_no_marks [OF assms(2-7)]
  note ll = clean_pos_last_line [OF assms(2,3,4,8,9)]
  have s: "start_mark \<notin> set (readlines (ensure_nl ?c))"
    using readlines_ensure_nl [OF nm(1) marks_neq_nl(1)] ll(1) by blast
  have e: "end_mark \<notin> set (readlines (ensure_nl ?c))"
    using readlines_ensure_nl [OF nm(2) marks_neq_nl(2)] ll(2) by blast
  from read_back_one_block [OF clean_no_cr [OF assms(1)] s e assms(10,11)]
  show ?thesis by (simp add: update_document_def)
qed

theorem update_leaves_one_block_witness:
  "list_index (readlines profile_doc) start_mark = Inr 7
   \<and> list_index (readlines profile_doc) end_mark = Inr 9
   \<and> count_list (readlines (universal_newlines (update_document profile_doc [pub_A]))) start_mark = 1
   \<and> count_list (readlines (universal_newlines (update_document profile_doc [pub_A]))) end_mark = 1
   \<and> generated_block (readlines (universal_newlines (update_document profile_doc [pub_A])))
        = Some (readlines (universal_newlines (make_annex [pub_A])))"
proof -
  have 0: "cr \<notin> set profile_doc"
    by (simp add: doc_defs eval_defs cr_def)
  have 1: "list_index (readlines profile_doc) start_mark = Inr 7"
    and 2: "list_index (readlines profile_doc) end_mark = Inr 9"
    and 5: "count_list (readlines profile_doc) start_mark \<le> 1"
    and 6: "count_list (readlines profile_doc) end_mark \<le> 1"
    and 7: "last (readlines profile_doc) \<noteq> butlast start_mark"
    and 8: "last (readlines profile_doc) \<noteq> butlast end_mark"
    by (simp_all add: doc_defs eval_defs)
  have 9: "start_mark \<notin> set (readlines (universal_newlines (rendered [pub_A])))"
    and 10: "end_mark \<notin> set (readlines (universal_newlines (rendered [pub_A])))"
    by (simp_all add: rendered_def publication_to_md_def pub_A_def eval_defs cr_def)
  have 3: "0 < (7::nat)" and 4: "(7::nat) < 9" by simp_all
  from update_leaves_one_block [OF 0 1 2 3 4 5 6 7 8 9 10] 1 2 show ?thesis by simp
qed

section \<open>Claim C9: markers are whole lines\<close>

text \<open>
  Claim C9: a marker is recognised only as a line that is exactly the marker text followed
  by a newline. A text in which no line is the start marker line, or no line is the end
  marker line, is left unchanged; in particular a marker that is the last line and has no
  newline after it, and a line that holds a marker with other text around it, do not count.
\<close>

theorem strip_needs_exact_marker_line:
  "(start_mark \<notin> set (readlines d) \<or> end_mark \<notin> set (readlines d)
      \<longrightarrow> clean_index_of_old_pubs d = d)
   \<and> ((d = [] \<or> last d = nl) \<and> start_mark \<notin> set (readlines d)
      \<longrightarrow> clean_index_of_old_pubs (d @ butlast start_mark) = d @ butlast start_mark)
   \<and> ((d = [] \<or> last d = nl) \<and> end_mark \<notin> set (readlines d)
      \<longrightarrow> clean_index_of_old_pubs (d @ butlast end_mark) = d @ butlast end_mark)
   \<and> ((d = [] \<or> last d = nl) \<and> nl \<notin> set x \<and> nl \<notin> set y \<and> (x \<noteq> [] \<or> y \<noteq> [])
       \<and> start_mark \<notin> set (readlines d) \<and> start_mark \<notin> set (readlines d')
      \<longrightarrow> clean_index_of_old_pubs (d @ (x @ butlast start_mark @ y @ [nl]) @ d')
            = d @ (x @ butlast start_mark @ y @ [nl]) @ d')
   \<and> ((d = [] \<or> last d = nl) \<and> nl \<notin> set x \<and> nl \<notin> set y \<and> (x \<noteq> [] \<or> y \<noteq> [])
       \<and> end_mark \<notin> set (readlines d) \<and> end_mark \<notin> set (readlines d')
      \<longrightarrow> clean_index_of_old_pubs (d @ (x @ butlast end_mark @ y @ [nl]) @ d')
            = d @ (x @ butlast end_mark @ y @ [nl]) @ d')"
proof (intro conjI impI)
  assume "start_mark \<notin> set (readlines d) \<or> end_mark \<notin> set (readlines d)"
  then show "clean_index_of_old_pubs d = d" by (rule clean_no_marks)
next
  assume a: "(d = [] \<or> last d = nl) \<and> start_mark \<notin> set (readlines d)"
  have "butlast start_mark \<noteq> start_mark" using butlast_marks(1) by (metis append_self_conv not_Cons_self2)
  with a have "start_mark \<notin> set (readlines (d @ butlast start_mark))"
    using readlines_unterminated_last [of d "butlast start_mark"] butlast_marks by auto
  then show "clean_index_of_old_pubs (d @ butlast start_mark) = d @ butlast start_mark"
    by (simp add: clean_no_marks)
next
  assume a: "(d = [] \<or> last d = nl) \<and> end_mark \<notin> set (readlines d)"
  have "butlast end_mark \<noteq> end_mark" using butlast_marks(2) by (metis append_self_conv not_Cons_self2)
  with a have "end_mark \<notin> set (readlines (d @ butlast end_mark))"
    using readlines_unterminated_last [of d "butlast end_mark"] butlast_marks by auto
  then show "clean_index_of_old_pubs (d @ butlast end_mark) = d @ butlast end_mark"
    by (simp add: clean_no_marks)
next
  let ?m = "butlast start_mark"
  assume a: "(d = [] \<or> last d = nl) \<and> nl \<notin> set x \<and> nl \<notin> set y \<and> (x \<noteq> [] \<or> y \<noteq> [])
       \<and> start_mark \<notin> set (readlines d) \<and> start_mark \<notin> set (readlines d')"
  then have "nl \<notin> set (x @ ?m @ y)" using butlast_marks by simp
  with a have "readlines (d @ ((x @ ?m @ y) @ [nl]) @ d')
      = readlines d @ ((x @ ?m @ y) @ [nl]) # readlines d'"
    using readlines_embedded_line [of d "x @ ?m @ y" d'] by blast
  moreover have "x @ ?m @ y @ [nl] \<noteq> start_mark"
    using surrounded_neq [of x y ?m nl] a butlast_marks(1) by metis
  ultimately have "start_mark \<notin> set (readlines (d @ (x @ ?m @ y @ [nl]) @ d'))"
    using a by auto
  then show "clean_index_of_old_pubs (d @ (x @ ?m @ y @ [nl]) @ d') = d @ (x @ ?m @ y @ [nl]) @ d'"
    by (simp add: clean_no_marks)
next
  let ?m = "butlast end_mark"
  assume a: "(d = [] \<or> last d = nl) \<and> nl \<notin> set x \<and> nl \<notin> set y \<and> (x \<noteq> [] \<or> y \<noteq> [])
       \<and> end_mark \<notin> set (readlines d) \<and> end_mark \<notin> set (readlines d')"
  then have "nl \<notin> set (x @ ?m @ y)" using butlast_marks by simp
  with a have "readlines (d @ ((x @ ?m @ y) @ [nl]) @ d')
      = readlines d @ ((x @ ?m @ y) @ [nl]) # readlines d'"
    using readlines_embedded_line [of d "x @ ?m @ y" d'] by blast
  moreover have "x @ ?m @ y @ [nl] \<noteq> end_mark"
    using surrounded_neq [of x y ?m nl] a butlast_marks(2) by metis
  ultimately have "end_mark \<notin> set (readlines (d @ (x @ ?m @ y @ [nl]) @ d'))"
    using a by auto
  then show "clean_index_of_old_pubs (d @ (x @ ?m @ y @ [nl]) @ d') = d @ (x @ ?m @ y @ [nl]) @ d'"
    by (simp add: clean_no_marks)
qed

theorem strip_needs_exact_marker_line_witness:
  "clean_index_of_old_pubs (''Bio\<newline>'' @ start_mark @ butlast end_mark)
     = ''Bio\<newline>'' @ start_mark @ butlast end_mark
   \<and> clean_index_of_old_pubs (''Bio\<newline>'' @ start_mark @ ''> '' @ butlast end_mark @ [nl] @ ''tail\<newline>'')
     = ''Bio\<newline>'' @ start_mark @ ''> '' @ butlast end_mark @ [nl] @ ''tail\<newline>''
   \<and> clean_index_of_old_pubs (''Bio\<newline>'' @ butlast start_mark @ '' x'' @ [nl] @ end_mark)
     = ''Bio\<newline>'' @ butlast start_mark @ '' x'' @ [nl] @ end_mark"
proof -
  let ?d = "''Bio\<newline>'' @ start_mark"
  have d: "(?d = [] \<or> last ?d = nl) \<and> end_mark \<notin> set (readlines ?d)"
    by (simp add: eval_defs)
  have t: "end_mark \<notin> set (readlines ''tail\<newline>'')" "nl \<notin> set ''> ''"
    by (simp_all add: eval_defs)
  have 1: "clean_index_of_old_pubs (?d @ butlast end_mark) = ?d @ butlast end_mark"
    using strip_needs_exact_marker_line [of ?d] d by blast
  have 2: "clean_index_of_old_pubs (?d @ (''> '' @ butlast end_mark @ [] @ [nl]) @ ''tail\<newline>'')
             = ?d @ (''> '' @ butlast end_mark @ [] @ [nl]) @ ''tail\<newline>''"
    using strip_needs_exact_marker_line [of ?d "''> ''" "[]" "''tail\<newline>''"] d t by simp
  let ?b = "''Bio\<newline>''"
  have b: "(?b = [] \<or> last ?b = nl) \<and> start_mark \<notin> set (readlines ?b)"
      "start_mark \<notin> set (readlines end_mark)" "nl \<notin> set '' x''"
    by (simp_all add: eval_defs)
  have 3: "clean_index_of_old_pubs (?b @ ([] @ butlast start_mark @ '' x'' @ [nl]) @ end_mark)
             = ?b @ ([] @ butlast start_mark @ '' x'' @ [nl]) @ end_mark"
    using strip_needs_exact_marker_line [of ?b "[]" "'' x''" end_mark] b by simp
  from 1 2 3 show ?thesis by simp
qed

section \<open>Claim C10: a start marker on the first line\<close>

text \<open>
  Claim C10 says that, when the start marker is the first line (index 0) and the end marker
  comes later, the text written is all the lines but the last followed by the lines after
  the end marker, so that the block with both its markers is not removed. The text written
  is that one, but when the end marker is the last line of the document it is the line
  that \<^verbatim>\<open>md[:-1]\<close> drops: the end marker is removed.
\<close>

theorem strip_first_line_end_last:
  "list_index (readlines (start_mark @ ''- old\<newline>'' @ end_mark)) start_mark = Inr 0
   \<and> list_index (readlines (start_mark @ ''- old\<newline>'' @ end_mark)) end_mark = Inr 2
   \<and> clean_index_of_old_pubs (start_mark @ ''- old\<newline>'' @ end_mark)
        = start_mark @ ''- old\<newline>''
   \<and> end_mark \<notin> set (readlines (clean_index_of_old_pubs (start_mark @ ''- old\<newline>'' @ end_mark)))"
  by (simp add: eval_defs)

text \<open>
  Claim C10, amended: when the start marker is the first line (index 0) and the end marker
  comes later, \<^verbatim>\<open>md[:publication_begins-1]\<close> is \<^verbatim>\<open>md[:-1]\<close>, so the text written is
  all the lines but the last, followed by the lines after the end marker. The start marker
  and the lines of the block before the end marker stay where they were. When the end
  marker is not the last line, the whole block with both markers stays and the lines after
  it, all but the last one, appear twice; when the end marker is the last line, it is the
  one line removed.
\<close>

theorem strip_start_on_first_line:
  assumes "list_index (readlines content) start_mark = Inr 0"
    and "list_index (readlines content) end_mark = Inr e"
  shows "clean_index_of_old_pubs content
           = concat (butlast (readlines content) @ drop (Suc e) (readlines content))
     \<and> readlines (clean_index_of_old_pubs content)
           = butlast (readlines content) @ drop (Suc e) (readlines content)
     \<and> 0 < e
     \<and> take e (readlines (clean_index_of_old_pubs content)) = take e (readlines content)
     \<and> (Suc e < length (readlines content) \<longrightarrow>
          readlines (clean_index_of_old_pubs content)
            = take (Suc e) (readlines content) @ butlast (drop (Suc e) (readlines content))
                @ drop (Suc e) (readlines content))
     \<and> (Suc e = length (readlines content) \<longrightarrow>
          readlines (clean_index_of_old_pubs content) = take e (readlines content))"
proof -
  let ?md = "readlines content"
  note rl = readlines_clean_zero [OF assms]
  from list_index_props [OF assms(1)] have s: "0 < length ?md" "?md ! 0 = start_mark" by simp_all
  from list_index_props [OF assms(2)] have e: "e < length ?md" "?md ! e = end_mark" by simp_all
  have pos: "0 < e"
  proof (rule ccontr)
    assume "\<not> 0 < e"
    with s e have "start_mark = end_mark" by simp
    then show False by (simp add: start_mark_neq_end_mark)
  qed
  have 1: "clean_index_of_old_pubs content = concat (butlast ?md @ drop (Suc e) ?md)"
    using clean_found [OF assms] by (simp add: slice_to_minus_one)
  have "e \<le> length (butlast ?md)" using e by simp
  then have "take e (butlast ?md @ drop (Suc e) ?md) = take e (butlast ?md)" by simp
  also have "\<dots> = take e ?md" using e by (simp add: take_butlast)
  finally have 2: "take e (readlines (clean_index_of_old_pubs content)) = take e ?md"
    by (simp only: rl)
  have 3: "Suc e < length ?md \<longrightarrow>
          readlines (clean_index_of_old_pubs content)
            = take (Suc e) ?md @ butlast (drop (Suc e) ?md) @ drop (Suc e) ?md"
  proof
    assume lt: "Suc e < length ?md"
    then have "drop (Suc e) ?md \<noteq> []" by simp
    then have "butlast (take (Suc e) ?md @ drop (Suc e) ?md)
                 = take (Suc e) ?md @ butlast (drop (Suc e) ?md)"
      by (simp only: butlast_append if_False)
    then have "butlast ?md = take (Suc e) ?md @ butlast (drop (Suc e) ?md)"
      by (simp only: append_take_drop_id)
    with rl show "readlines (clean_index_of_old_pubs content)
            = take (Suc e) ?md @ butlast (drop (Suc e) ?md) @ drop (Suc e) ?md" by simp
  qed
  have 4: "Suc e = length ?md \<longrightarrow> readlines (clean_index_of_old_pubs content) = take e ?md"
  proof
    assume eq: "Suc e = length ?md"
    then have "drop (Suc e) ?md = []" by simp
    moreover have "butlast ?md = take e ?md"
    proof -
      from eq have "length ?md - 1 = e" by simp
      then show ?thesis by (simp only: butlast_conv_take)
    qed
    ultimately show "readlines (clean_index_of_old_pubs content) = take e ?md"
      using rl by simp
  qed
  from 1 rl pos 2 3 4 show ?thesis by (intro conjI)
qed

theorem strip_start_on_first_line_witness:
  "list_index (readlines block_first) start_mark = Inr 0
   \<and> list_index (readlines block_first) end_mark = Inr 2
   \<and> clean_index_of_old_pubs block_first
       = start_mark @ ''- old\<newline>'' @ end_mark @ ''tail 1\<newline>'' @ ''tail 1\<newline>'' @ ''tail 2\<newline>''"
proof -
  have b: "list_index (readlines block_first) start_mark = Inr 0"
    by (simp add: block_first_def eval_defs)
  have e: "list_index (readlines block_first) end_mark = Inr 2"
    by (simp add: block_first_def eval_defs)
  have r: "concat (butlast (readlines block_first) @ drop (Suc 2) (readlines block_first))
     = start_mark @ ''- old\<newline>'' @ end_mark @ ''tail 1\<newline>'' @ ''tail 1\<newline>'' @ ''tail 2\<newline>''"
    by (simp add: block_first_def eval_defs)
  from strip_start_on_first_line [OF b e] r b e show ?thesis by simp
qed

end
